theory Spec2Isabelle
  imports Main "HOL-Library.AList"
begin

section \<open>Machine arithmetic of the C++ sources\<close>

text \<open>
  The sources compute with \<^verbatim>\<open>int\<close>, a 32-bit two's complement integer. A value is modelled
  as a HOL \<open>int\<close>; every addition, subtraction and multiplication that the program performs
  is followed by \<open>int32\<close>, which wraps the mathematical result into the range
  \<open>-2^31 .. 2^31 - 1\<close> (what the compiled program does on signed overflow). Division is the
  truncating division of C++ (\<open>cdiv\<close>), not the flooring \<open>div\<close> of HOL.
\<close>

definition INT_MAX :: int where
  "INT_MAX = 2147483647"

definition INT_MIN :: int where
  "INT_MIN = - 2147483648"

definition int32 :: "int \<Rightarrow> int" where
  "int32 x = (x + 2147483648) mod 4294967296 - 2147483648"

definition in_int :: "int \<Rightarrow> bool" where
  "in_int x \<longleftrightarrow> INT_MIN \<le> x \<and> x \<le> INT_MAX"

definition cdiv :: "int \<Rightarrow> int \<Rightarrow> int" where
  "cdiv a b = sgn a * sgn b * (\<bar>a\<bar> div \<bar>b\<bar>)"

text \<open>
  \<^verbatim>\<open>cache.size() >= size\<close> in \<^verbatim>\<open>TLB::insert\<close> compares a \<^verbatim>\<open>size_t\<close> with an \<^verbatim>\<open>int\<close>: the
  \<^verbatim>\<open>int\<close> is converted to the unsigned 64-bit type first, so a negative capacity becomes a
  huge positive number.
\<close>

definition to_size_t :: "int \<Rightarrow> int" where
  "to_size_t x = (if x < 0 then x + 18446744073709551616 else x)"

section \<open>constants.h\<close>

definition SMALL_PAGE_SIZE :: int where
  "SMALL_PAGE_SIZE = 4 * 1024"

definition LARGE_PAGE_SIZE :: int where
  "LARGE_PAGE_SIZE = 2 * 1024 * 1024"

text \<open>\<^verbatim>\<open>PHYSICAL_MEMORY_SIZE\<close> is a \<^verbatim>\<open>long long\<close> (\<^verbatim>\<open>1LL * ...\<close>): no wrap-around at 32 bits.\<close>

definition PHYSICAL_MEMORY_SIZE :: int where
  "PHYSICAL_MEMORY_SIZE = 1 * 1024 * 1024 * 1024"

definition TLB_SIZE :: int where
  "TLB_SIZE = 64"

section \<open>PolicyEngine\<close>

record PolicyEngine =
  mode :: string
  threshold :: int

definition PolicyEngine_new :: "string \<Rightarrow> int \<Rightarrow> PolicyEngine" where
  "PolicyEngine_new input_mode input_threshold =
     \<lparr>mode = input_mode, threshold = input_threshold\<rparr>"

text \<open>The default arguments of the constructor: mode \<^verbatim>\<open>"dynamic"\<close>, threshold 1 MiB.\<close>

definition PolicyEngine_default :: PolicyEngine where
  "PolicyEngine_default = PolicyEngine_new ''dynamic'' (1 * 1024 * 1024)"

text \<open>
  \<^verbatim>\<open>decide_page_size\<close> assigns to no member and calls nothing: the model is a function of the
  engine's two fields and the request size, and yields no new engine.
\<close>

definition decide_page_size :: "PolicyEngine \<Rightarrow> int \<Rightarrow> int" where
  "decide_page_size pe request_size =
     (if mode pe = ''small'' then SMALL_PAGE_SIZE
      else if mode pe = ''large'' then LARGE_PAGE_SIZE
      else if mode pe = ''dynamic'' then
        (if request_size > threshold pe then LARGE_PAGE_SIZE else SMALL_PAGE_SIZE)
      else SMALL_PAGE_SIZE)"

section \<open>OrderedDict\<close>

text \<open>
  The \<^verbatim>\<open>unordered_map\<close> is an association list with distinct keys (its iteration order is
  never used by the program), the \<^verbatim>\<open>vector\<close> of keys is a list.
\<close>

record ('k, 'v) OrderedDict =
  map_od :: "('k \<times> 'v) list"
  order_od :: "'k list"

definition OrderedDict_new :: "('k, 'v) OrderedDict" where
  "OrderedDict_new = \<lparr>map_od = [], order_od = []\<rparr>"

definition contains :: "('k, 'v) OrderedDict \<Rightarrow> 'k \<Rightarrow> bool" where
  "contains d key \<longleftrightarrow> map_of (map_od d) key \<noteq> None"

definition insert_od :: "('k, 'v) OrderedDict \<Rightarrow> 'k \<Rightarrow> 'v \<Rightarrow> ('k, 'v) OrderedDict" where
  "insert_od d key val =
     (let d1 = (if map_of (map_od d) key = None then d\<lparr>order_od := order_od d @ [key]\<rparr> else d)
      in d1\<lparr>map_od := AList.update key val (map_od d1)\<rparr>)"

text \<open>
  \<^verbatim>\<open>operator[]\<close>: a missing key is appended to the order and gets a value-initialised entry
  (0 for \<^verbatim>\<open>int\<close>); the result is the stored value and the dictionary after the access.
\<close>

definition index_od :: "('k, 'v::zero) OrderedDict \<Rightarrow> 'k \<Rightarrow> 'v \<times> ('k, 'v) OrderedDict" where
  "index_od d key =
     (case map_of (map_od d) key of
        None \<Rightarrow> (0, \<lparr>map_od = AList.update key 0 (map_od d), order_od = order_od d @ [key]\<rparr>)
      | Some v \<Rightarrow> (v, d))"

text \<open>
  \<^verbatim>\<open>erase\<close>: \<^verbatim>\<open>find\<close> yields the first occurrence of the key in the order vector, which
  \<open>remove1\<close> deletes. (Were the key in the map but not in the vector, the source would erase
  at \<^verbatim>\<open>end()\<close>; \<open>od_inv\<close> below excludes that and is kept by every operation.)
\<close>

definition erase :: "('k, 'v) OrderedDict \<Rightarrow> 'k \<Rightarrow> ('k, 'v) OrderedDict" where
  "erase d key =
     (if map_of (map_od d) key \<noteq> None
      then \<lparr>map_od = AList.delete key (map_od d), order_od = remove1 key (order_od d)\<rparr>
      else d)"

definition get_order :: "('k, 'v) OrderedDict \<Rightarrow> 'k list" where
  "get_order d = order_od d"

definition move_to_end :: "('k, 'v) OrderedDict \<Rightarrow> 'k \<Rightarrow> ('k, 'v) OrderedDict" where
  "move_to_end d key =
     (if key \<in> set (order_od d) then d\<lparr>order_od := remove1 key (order_od d) @ [key]\<rparr> else d)"

definition size_od :: "('k, 'v) OrderedDict \<Rightarrow> nat" where
  "size_od d = length (map_od d)"

section \<open>TLB\<close>

datatype error = OutOfMemory | InvalidAddress | EmptyFront

record TLB =
  size_tlb :: int
  cache :: "(int, int) OrderedDict"
  hits :: int
  misses :: int

definition TLB_new :: "int \<Rightarrow> TLB" where
  "TLB_new tlb_size = \<lparr>size_tlb = tlb_size, cache = OrderedDict_new, hits = 0, misses = 0\<rparr>"

text \<open>\<^verbatim>\<open>lookup\<close> returns the cached frame, or \<open>-1\<close> for a miss, and the TLB after the call.\<close>

definition lookup :: "TLB \<Rightarrow> int \<Rightarrow> int \<times> TLB" where
  "lookup t virtual_page_number =
     (if contains (cache t) virtual_page_number then
        (let t1 = t\<lparr>hits := int32 (hits t + 1)\<rparr>;
             t2 = t1\<lparr>cache := move_to_end (cache t1) virtual_page_number\<rparr>;
             (v, c) = index_od (cache t2) virtual_page_number
         in (v, t2\<lparr>cache := c\<rparr>))
      else (- 1, t\<lparr>misses := int32 (misses t + 1)\<rparr>))"

text \<open>
  \<^verbatim>\<open>insert\<close>: \<^verbatim>\<open>get_order().front()\<close> on an empty vector has no defined result; the model
  returns \<open>Inl EmptyFront\<close> there and the new TLB otherwise.
\<close>

definition insert_tlb :: "TLB \<Rightarrow> int \<Rightarrow> int \<Rightarrow> error + TLB" where
  "insert_tlb t virtual_page_number physical_frame_number =
     (if contains (cache t) virtual_page_number then
        Inr (t\<lparr>cache := insert_od (erase (cache t) virtual_page_number)
                            virtual_page_number physical_frame_number\<rparr>)
      else if int (size_od (cache t)) \<ge> to_size_t (size_tlb t) then
        (case get_order (cache t) of
           [] \<Rightarrow> Inl EmptyFront
         | lru_key # _ \<Rightarrow>
             Inr (t\<lparr>cache := insert_od (erase (cache t) lru_key)
                                 virtual_page_number physical_frame_number\<rparr>))
      else
        Inr (t\<lparr>cache := insert_od (cache t) virtual_page_number physical_frame_number\<rparr>))"

text \<open>
  \<^verbatim>\<open>hit_rate\<close>, in \<^verbatim>\<open>int\<close> arithmetic. The one quotient that C++ leaves without a result,
  \<^verbatim>\<open>INT_MIN / -1\<close>, needs \<^verbatim>\<open>hits * 100\<close> wrapped to \<^verbatim>\<open>INT_MIN\<close> and \<^verbatim>\<open>hits + misses\<close> wrapped
  to \<open>-1\<close>, which takes at least \<open>2^32 - 1\<close> lookups; what the function below gives there is
  used by no theorem.
\<close>

definition hit_rate :: "TLB \<Rightarrow> int" where
  "hit_rate t =
     (let total = int32 (hits t + misses t)
      in if total = 0 then 0 else int32 (cdiv (int32 (hits t * 100)) total))"

section \<open>MMU\<close>

text \<open>
  The page table is an \<^verbatim>\<open>unordered_map\<close> from virtual page number to (physical frame number,
  page size); only \<^verbatim>\<open>find\<close> and \<^verbatim>\<open>operator[]\<close> are used on it, so it is a partial map. The
  frame bitmap \<^verbatim>\<open>vector<bool>\<close> is a list: \<open>False\<close> is free, \<open>True\<close> is allocated.
\<close>

record MMU =
  tlb :: TLB
  page_table :: "int \<rightharpoonup> int \<times> int"
  policy_engine :: PolicyEngine
  physical_frames :: "bool list"
  internal_fragmentation :: int

definition MMU_new :: "PolicyEngine \<Rightarrow> MMU" where
  "MMU_new pe =
     \<lparr>tlb = TLB_new TLB_SIZE, page_table = Map.empty, policy_engine = pe,
      physical_frames = replicate (nat (PHYSICAL_MEMORY_SIZE div SMALL_PAGE_SIZE)) False,
      internal_fragmentation = 0\<rparr>"

text \<open>\<^verbatim>\<open>std::find(begin, end, false)\<close>: the index of the first free frame, the length if none.\<close>

fun find_false :: "bool list \<Rightarrow> nat" where
  "find_false [] = 0"
| "find_false (b # bs) = (if \<not> b then 0 else Suc (find_false bs))"

text \<open>The inner loop \<^verbatim>\<open>for (int j = start_index; j < start_index + num_frames; j++)\<close>.\<close>

function mark_allocated :: "bool list \<Rightarrow> int \<Rightarrow> int \<Rightarrow> bool list" where
  "mark_allocated frames j hi =
     (if j < hi then mark_allocated (frames[nat j := True]) (j + 1) hi else frames)"
  by pat_completeness auto
termination
  by (relation "measure (\<lambda>(frames, j, hi). nat (hi - j))") auto

text \<open>
  The scan of the \<^verbatim>\<open>else\<close> branch, entered at index \<open>i\<close> with the current values of
  \<^verbatim>\<open>consecutive_free_count\<close> and \<^verbatim>\<open>start_index\<close>. Both are bounded by the number of frames
  (262144 from the constructor on; the vector is never resized), so they cannot overflow and
  carry no wrap-around.
\<close>

function scan_frames :: "bool list \<Rightarrow> int \<Rightarrow> nat \<Rightarrow> int \<Rightarrow> int \<Rightarrow> int \<times> bool list" where
  "scan_frames frames num_frames i consecutive_free_count start_index =
     (if i < length frames then
        (let start_index1 =
               (if \<not> frames ! i
                then (if consecutive_free_count = 0 then int i else start_index)
                else - 1);
             consecutive_free_count1 =
               (if \<not> frames ! i then consecutive_free_count + 1 else 0)
         in if consecutive_free_count1 = num_frames
            then (start_index1, mark_allocated frames start_index1 (start_index1 + num_frames))
            else scan_frames frames num_frames (Suc i) consecutive_free_count1 start_index1)
      else (- 1, frames))"
  by pat_completeness auto
termination
  by (relation "measure (\<lambda>(frames, num_frames, i, c, s). length frames - i)") auto

text \<open>The result is the returned index (\<open>-1\<close> for failure) and the bitmap after the call.\<close>

definition find_and_allocate_physical_frames :: "bool list \<Rightarrow> int \<Rightarrow> int \<times> bool list" where
  "find_and_allocate_physical_frames frames num_frames =
     (if num_frames = 1 then
        (let it = find_false frames
         in if it = length frames then (- 1, frames)
            else (int it, frames[it := True]))
      else scan_frames frames num_frames 0 0 (- 1))"

text \<open>
  The loop of \<^verbatim>\<open>allocate\<close>, entered at index \<open>i\<close>. A \<^verbatim>\<open>throw\<close> leaves the object as it is at
  that moment, so the error carries the state. (\<open>i < num_pages_needed\<close> keeps \<open>i + 1\<close> in
  range.)
\<close>

function allocate_pages :: "MMU \<Rightarrow> int \<Rightarrow> int \<Rightarrow> int \<Rightarrow> int \<Rightarrow> error \<times> MMU + MMU" where
  "allocate_pages s virtual_address page_size num_pages_needed i =
     (if i < num_pages_needed then
        (let virtual_page_number = int32 (cdiv virtual_address page_size + i)
         in if page_table s virtual_page_number = None then
              (let number_frames_per_page = cdiv page_size SMALL_PAGE_SIZE;
                   (physical_frame_number, frames) =
                      find_and_allocate_physical_frames (physical_frames s) number_frames_per_page
               in if physical_frame_number = - 1
                  then Inl (OutOfMemory, s\<lparr>physical_frames := frames\<rparr>)
                  else allocate_pages
                         (s\<lparr>physical_frames := frames,
                            page_table := (page_table s)
                              (virtual_page_number \<mapsto> (physical_frame_number, page_size))\<rparr>)
                         virtual_address page_size num_pages_needed (i + 1))
            else allocate_pages s virtual_address page_size num_pages_needed (i + 1))
      else Inr s)"
  by pat_completeness auto
termination
  by (relation "measure (\<lambda>(s, va, ps, n, i). nat (n - i))") auto

definition first_vpn :: "int \<Rightarrow> int \<Rightarrow> int" where
  "first_vpn virtual_address page_size = cdiv virtual_address page_size"

definition last_vpn :: "int \<Rightarrow> int \<Rightarrow> int \<Rightarrow> int" where
  "last_vpn virtual_address request_size page_size =
     cdiv (int32 (int32 (virtual_address + request_size) - 1)) page_size"

definition num_pages_needed :: "int \<Rightarrow> int \<Rightarrow> int \<Rightarrow> int" where
  "num_pages_needed virtual_address request_size page_size =
     int32 (int32 (last_vpn virtual_address request_size page_size
                   - first_vpn virtual_address page_size) + 1)"

definition allocate :: "MMU \<Rightarrow> int \<Rightarrow> int \<Rightarrow> error \<times> MMU + MMU" where
  "allocate s virtual_address request_size =
     (let page_size = decide_page_size (policy_engine s) request_size;
          n = num_pages_needed virtual_address request_size page_size;
          allocated_memory = int32 (n * page_size);
          s1 = s\<lparr>internal_fragmentation :=
                   int32 (internal_fragmentation s + int32 (allocated_memory - request_size))\<rparr>
      in allocate_pages s1 virtual_address page_size n 0)"

text \<open>
  \<^verbatim>\<open>unordered_map::operator[]\<close>: the entry of the key; a missing key gets a value-initialised
  entry first.
\<close>

definition index_pt :: "(int \<rightharpoonup> int \<times> int) \<Rightarrow> int \<Rightarrow> (int \<times> int) \<times> (int \<rightharpoonup> int \<times> int)" where
  "index_pt pt key =
     (case pt key of None \<Rightarrow> ((0, 0), pt(key \<mapsto> (0, 0))) | Some e \<Rightarrow> (e, pt))"

text \<open>
  The first half of \<^verbatim>\<open>translate\<close>: the value of \<^verbatim>\<open>va_page_num\<close>, or \<open>None\<close> where the method
  throws. In each condition \<^verbatim>\<open>page_table[k].second\<close> is evaluated only after \<^verbatim>\<open>find\<close> has
  found \<open>k\<close> (\<^verbatim>\<open>&&\<close> short-circuits), so it reads the entry and inserts nothing.
\<close>

definition resolve_vpn :: "MMU \<Rightarrow> int \<Rightarrow> int option" where
  "resolve_vpn s virtual_address =
     (let large_vpn = cdiv virtual_address LARGE_PAGE_SIZE
      in if (case page_table s large_vpn of None \<Rightarrow> False
                | Some (frame, sz) \<Rightarrow> sz = LARGE_PAGE_SIZE)
         then Some large_vpn
         else
           (let small_vpn = cdiv virtual_address SMALL_PAGE_SIZE
            in if (case page_table s small_vpn of None \<Rightarrow> False
                      | Some (frame, sz) \<Rightarrow> sz = SMALL_PAGE_SIZE)
               then Some small_vpn
               else None))"

text \<open>
  \<^verbatim>\<open>translate\<close> is a \<^verbatim>\<open>void\<close> method. The model returns, next to the new state, the final
  value of its local \<^verbatim>\<open>physical_frame\<close>, which the method computes and then drops.
\<close>

definition translate :: "MMU \<Rightarrow> int \<Rightarrow> error \<times> MMU + int \<times> MMU" where
  "translate s virtual_address =
     (case resolve_vpn s virtual_address of
        None \<Rightarrow> Inl (InvalidAddress, s)
      | Some va_page_num \<Rightarrow>
          (let (physical_frame, t1) = lookup (tlb s) va_page_num
           in if physical_frame = - 1 then
                (let (entry, pt) = index_pt (page_table s) va_page_num
                 in case insert_tlb t1 va_page_num (fst entry) of
                      Inl e \<Rightarrow> Inl (e, s\<lparr>tlb := t1, page_table := pt\<rparr>)
                    | Inr t2 \<Rightarrow> Inr (fst entry, s\<lparr>tlb := t2, page_table := pt\<rparr>))
              else Inr (physical_frame, s\<lparr>tlb := t1\<rparr>)))"

definition get_tlb_hit_rate :: "MMU \<Rightarrow> int" where
  "get_tlb_hit_rate s = hit_rate (tlb s)"

definition get_internal_fragmentation :: "MMU \<Rightarrow> int" where
  "get_internal_fragmentation s = internal_fragmentation s"

section \<open>Sequences of operations and the predicates of the claims\<close>

text \<open>The recursive equations of the three loops are unfolded by hand, never by the simplifier.\<close>

declare mark_allocated.simps [simp del] scan_frames.simps [simp del] allocate_pages.simps [simp del]

text \<open>
  The representation invariant of an \<open>OrderedDict\<close>: the map has one entry per key, and the
  order vector lists exactly the keys of the map, each once.
\<close>

definition od_inv :: "('k, 'v) OrderedDict \<Rightarrow> bool" where
  "od_inv d \<longleftrightarrow> distinct (map fst (map_od d)) \<and> distinct (order_od d) \<and>
     set (order_od d) = fst ` set (map_od d)"

text \<open>A caller's sequence of calls on one TLB; it ends at the first call without a result.\<close>

datatype tlb_op = Lookup int | Insert int int

fun tlb_step :: "TLB \<Rightarrow> tlb_op \<Rightarrow> error + TLB" where
  "tlb_step t (Lookup vpn) = Inr (snd (lookup t vpn))"
| "tlb_step t (Insert vpn frame) = insert_tlb t vpn frame"

fun tlb_run :: "TLB \<Rightarrow> tlb_op list \<Rightarrow> error + TLB" where
  "tlb_run t [] = Inr t"
| "tlb_run t (x # xs) = (case tlb_step t x of Inl e \<Rightarrow> Inl e | Inr t' \<Rightarrow> tlb_run t' xs)"

text \<open>
  The number of lookups of a sequence that hit and that miss, as unbounded naturals: what
  the \<^verbatim>\<open>int\<close> counters \<open>hits\<close> and \<open>misses\<close> are meant to count.
\<close>

fun count_run :: "TLB \<Rightarrow> tlb_op list \<Rightarrow> nat \<times> nat" where
  "count_run t [] = (0, 0)"
| "count_run t (Lookup vpn # xs) =
     (let (h, m) = count_run (snd (lookup t vpn)) xs
      in if contains (cache t) vpn then (Suc h, m) else (h, Suc m))"
| "count_run t (Insert vpn frame # xs) =
     (case insert_tlb t vpn frame of Inl e \<Rightarrow> (0, 0) | Inr t' \<Rightarrow> count_run t' xs)"

definition tlb_ok :: "TLB \<Rightarrow> bool" where
  "tlb_ok t \<longleftrightarrow> od_inv (cache t) \<and> 0 \<le> size_tlb t \<and> int (size_od (cache t)) \<le> size_tlb t"

text \<open>Frames \<open>p, ..., p + k - 1\<close> exist and are all free.\<close>

definition free_run :: "bool list \<Rightarrow> nat \<Rightarrow> nat \<Rightarrow> bool" where
  "free_run frames p k \<longleftrightarrow> p + k \<le> length frames \<and> (\<forall>j<k. \<not> frames ! (p + j))"

text \<open>
  The MMU after a call of \<open>allocate\<close> or \<open>translate\<close>, whether the call returned or threw: an
  exception leaves the object as the method had changed it so far.
\<close>

definition after_allocate :: "error \<times> MMU + MMU \<Rightarrow> MMU" where
  "after_allocate r = (case r of Inl (e, s) \<Rightarrow> s | Inr s \<Rightarrow> s)"

definition after_translate :: "error \<times> MMU + int \<times> MMU \<Rightarrow> MMU" where
  "after_translate r = (case r of Inl (e, s) \<Rightarrow> s | Inr (frame, s) \<Rightarrow> s)"

text \<open>
  A caller's sequence of calls on one MMU that catches every exception and goes on (as the
  access loop of \<^verbatim>\<open>run_simulation\<close> does for \<open>translate\<close>).
\<close>

datatype mmu_op = Allocate int int | Translate int

fun mmu_step :: "MMU \<Rightarrow> mmu_op \<Rightarrow> MMU" where
  "mmu_step s (Allocate virtual_address request_size) =
     after_allocate (allocate s virtual_address request_size)"
| "mmu_step s (Translate virtual_address) = after_translate (translate s virtual_address)"

fun mmu_run :: "MMU \<Rightarrow> mmu_op list \<Rightarrow> MMU" where
  "mmu_run s [] = s"
| "mmu_run s (x # xs) = mmu_run (mmu_step s x) xs"

text \<open>
  The allocation phase of \<^verbatim>\<open>run_simulation\<close>: \<^verbatim>\<open>for (req : workload) mmu.allocate(req.first,
  req.second)\<close> inside one \<^verbatim>\<open>try\<close> block, so the first exception ends the phase.
\<close>

fun allocation_phase :: "MMU \<Rightarrow> (int \<times> int) list \<Rightarrow> error \<times> MMU + MMU" where
  "allocation_phase s [] = Inr s"
| "allocation_phase s (req # workload) =
     (case allocate s (fst req) (snd req) of
        Inl x \<Rightarrow> Inl x
      | Inr s' \<Rightarrow> allocation_phase s' workload)"

text \<open>
  The fragmentation contribution of one request as the claims state it, an unbounded integer:
  \<open>num_pages * page_size - request_size\<close> with the number of pages that \<open>allocate\<close> computes.
\<close>

definition fragmentation_contribution :: "PolicyEngine \<Rightarrow> int \<Rightarrow> int \<Rightarrow> int" where
  "fragmentation_contribution pe virtual_address request_size =
     (let page_size = decide_page_size pe request_size
      in num_pages_needed virtual_address request_size page_size * page_size - request_size)"

text \<open>
  \<open>oom_at s s' va ps i j\<close>: in the state \<open>s'\<close> found after a failed run of the loop that was
  entered at index \<open>i\<close> in state \<open>s\<close>, the VPN of index \<open>j\<close> has no entry and the frame
  allocator fails on the bitmap of \<open>s'\<close>; the VPNs of the indices from \<open>i\<close> up to \<open>j\<close> all
  have entries; and every entry of \<open>s'\<close> was in \<open>s\<close> already or belongs to one of those
  indices (nothing from index \<open>j\<close> on was processed).
\<close>

definition oom_at :: "MMU \<Rightarrow> MMU \<Rightarrow> int \<Rightarrow> int \<Rightarrow> int \<Rightarrow> int \<Rightarrow> bool" where
  "oom_at s s' virtual_address page_size i j \<longleftrightarrow>
     page_table s' (int32 (cdiv virtual_address page_size + j)) = None \<and>
     fst (find_and_allocate_physical_frames (physical_frames s')
            (cdiv page_size SMALL_PAGE_SIZE)) = - 1 \<and>
     (\<forall>i'. i \<le> i' \<and> i' < j \<longrightarrow>
        page_table s' (int32 (cdiv virtual_address page_size + i')) \<noteq> None) \<and>
     (\<forall>v. page_table s' v \<noteq> None \<longrightarrow> page_table s v \<noteq> None \<or>
        (\<exists>i'. i \<le> i' \<and> i' < j \<and> v = int32 (cdiv virtual_address page_size + i')))"

text \<open>
  Every frame the TLB holds for a VPN is the frame of the page-table entry of that VPN. With
  a well-formed cache of capacity at least 1 this is the invariant of the MMU's TLB.
\<close>

definition tlb_consistent :: "TLB \<Rightarrow> (int \<rightharpoonup> int \<times> int) \<Rightarrow> bool" where
  "tlb_consistent t pt \<longleftrightarrow>
     (\<forall>vpn frame. map_of (map_od (cache t)) vpn = Some frame \<longrightarrow>
        (\<exists>sz. pt vpn = Some (frame, sz)))"

definition mmu_inv :: "MMU \<Rightarrow> bool" where
  "mmu_inv s \<longleftrightarrow> od_inv (cache (tlb s)) \<and> 1 \<le> size_tlb (tlb s) \<and>
     tlb_consistent (tlb s) (page_table s)"

text \<open>The engine of the "large" runs of \<^verbatim>\<open>main\<close>: \<^verbatim>\<open>PolicyEngine policy_engine("large")\<close>.\<close>

definition large_policy :: PolicyEngine where
  "large_policy = PolicyEngine_new ''large'' (1 * 1024 * 1024)"

text \<open>The VPNs that a sequence of TLB calls inserts, in the order of the calls.\<close>

fun inserted_vpns :: "tlb_op list \<Rightarrow> int list" where
  "inserted_vpns [] = []"
| "inserted_vpns (Lookup vpn # xs) = inserted_vpns xs"
| "inserted_vpns (Insert vpn frame # xs) = vpn # inserted_vpns xs"

text \<open>
  No lookup of the sequence repeats an access: every \<open>Lookup\<close> is of a VPN that is neither in
  \<open>seen\<close> nor inserted by an earlier call of the sequence, so it finds no entry to touch.
  Lookups of VPNs that have not been inserted yet may occur anywhere, any number of times.
\<close>

fun no_repeated_lookups :: "int list \<Rightarrow> tlb_op list \<Rightarrow> bool" where
  "no_repeated_lookups seen [] = True"
| "no_repeated_lookups seen (Lookup vpn # xs) = (vpn \<notin> set seen \<and> no_repeated_lookups seen xs)"
| "no_repeated_lookups seen (Insert vpn frame # xs) = no_repeated_lookups (vpn # seen) xs"

text \<open>The last \<open>c\<close> elements of a list (the whole list when it has no more than \<open>c\<close>).\<close>

definition most_recent :: "nat \<Rightarrow> 'a list \<Rightarrow> 'a list" where
  "most_recent c xs = drop (length xs - c) xs"

text \<open>
  The MMU at the head of the loop of \<^verbatim>\<open>allocate\<close>: lines 115 to 123 have selected the page
  size, counted the pages and added the charge of the request to the counter.
\<close>

definition charged :: "MMU \<Rightarrow> int \<Rightarrow> int \<Rightarrow> MMU" where
  "charged s virtual_address request_size =
     (let page_size = decide_page_size (policy_engine s) request_size;
          n = num_pages_needed virtual_address request_size page_size;
          allocated_memory = int32 (n * page_size)
      in s\<lparr>internal_fragmentation :=
             int32 (internal_fragmentation s + int32 (allocated_memory - request_size))\<rparr>)"

text \<open>
  The contribution of one request in the words of the claims, computed in unbounded integers:
  with \<open>first_vpn = virtual_address / page_size\<close>,
  \<open>last_vpn = (virtual_address + request_size - 1) / page_size\<close> and
  \<open>num_pages = last_vpn - first_vpn + 1\<close> it is \<open>num_pages * page_size - request_size\<close>. It
  repeats nothing of \<^verbatim>\<open>allocate\<close> but the choice of the page size; it is there to be compared
  with what \<^verbatim>\<open>allocate\<close> leaves in the counter.
\<close>

definition claimed_contribution :: "PolicyEngine \<Rightarrow> int \<Rightarrow> int \<Rightarrow> int" where
  "claimed_contribution pe virtual_address request_size =
     (let page_size = decide_page_size pe request_size;
          first = virtual_address div page_size;
          last = (virtual_address + request_size - 1) div page_size;
          num_pages = last - first + 1
      in num_pages * page_size - request_size)"

section \<open>Lemmas: arithmetic, OrderedDict and TLB\<close>

lemma od_inv_new: "od_inv OrderedDict_new"
  by (simp add: od_inv_def OrderedDict_new_def)

lemma od_inv_size: "od_inv d \<Longrightarrow> size_od d = length (order_od d)"
proof -
  assume a: "od_inv d"
  have "distinct (map fst (map_od d))" using a by (simp add: od_inv_def)
  then have "length (map fst (map_od d)) = card (set (map fst (map_od d)))"
    by (rule distinct_card [symmetric])
  also have "\<dots> = card (set (order_od d))" using a by (simp add: od_inv_def)
  also have "\<dots> = length (order_od d)"
  proof -
    have "distinct (order_od d)" using a by (simp add: od_inv_def)
    then show ?thesis by (rule distinct_card)
  qed
  finally show ?thesis by (simp add: size_od_def)
qed

lemma contains_iff: "contains d k \<longleftrightarrow> k \<in> fst ` set (map_od d)"
  by (simp add: contains_def map_of_eq_None_iff)

lemma od_inv_insert: "od_inv d \<Longrightarrow> od_inv (insert_od d k v)"
  by (auto simp: od_inv_def insert_od_def Let_def map_of_eq_None_iff AList.distinct_update AList.dom_update)

lemma od_inv_erase: "od_inv d \<Longrightarrow> od_inv (erase d k)"
proof -
  assume a: "od_inv d"
  have "set (remove1 k (order_od d)) = fst ` set (AList.delete k (map_od d))"
  proof -
    have "set (remove1 k (order_od d)) = set (order_od d) - {k}"
      using a by (simp add: od_inv_def)
    also have "\<dots> = set (removeAll k (map fst (map_od d)))"
      using a by (auto simp: od_inv_def)
    also have "\<dots> = fst ` set (AList.delete k (map_od d))"
      by (simp only: AList.delete_keys [symmetric] set_map)
    finally show ?thesis .
  qed
  then show ?thesis
    using a by (simp add: od_inv_def erase_def AList.distinct_delete)
qed

lemma od_inv_move: "od_inv d \<Longrightarrow> od_inv (move_to_end d k)"
  by (auto simp: od_inv_def move_to_end_def)

lemma order_insert: "order_od (insert_od d k v) = (if contains d k then order_od d else order_od d @ [k])"
  by (simp add: insert_od_def contains_def Let_def)

lemma order_erase: "order_od (erase d k) = (if contains d k then remove1 k (order_od d) else order_od d)"
  by (simp add: erase_def contains_def)

lemma contains_erase: "od_inv d \<Longrightarrow> contains (erase d k) k' \<longleftrightarrow> contains d k' \<and> k' \<noteq> k"
  by (auto simp: contains_def erase_def AList.delete_conv')

lemma contains_insert: "contains (insert_od d k v) k' \<longleftrightarrow> contains d k' \<or> k' = k"
  by (auto simp: contains_def insert_od_def Let_def AList.update_conv')

lemma contains_move: "contains (move_to_end d k) k' = contains d k'"
  by (simp add: contains_def move_to_end_def)

lemma index_present: "contains d k \<Longrightarrow> snd (index_od d k) = d"
  by (auto simp: contains_def index_od_def)

lemma size_erase: "od_inv d \<Longrightarrow> contains d k \<Longrightarrow> Suc (size_od (erase d k)) = size_od d"
proof -
  assume a: "od_inv d" and c: "contains d k"
  have k: "k \<in> set (order_od d)" using a c by (simp add: od_inv_def contains_iff)
  have "size_od (erase d k) = length (order_od (erase d k))"
    using a by (simp add: od_inv_size od_inv_erase)
  also have "\<dots> = length (order_od d) - 1"
    using c k by (simp add: order_erase length_remove1)
  finally show ?thesis using a k by (cases "order_od d") (auto simp add: od_inv_size)
qed

lemma length_update:
  "length (AList.update k v al) = (if k \<in> fst ` set al then length al else Suc (length al))"
  by (induction al) auto

lemma size_new: "size_od OrderedDict_new = 0"
  by (simp add: size_od_def OrderedDict_new_def)

lemma size_insert: "size_od (insert_od d k v) = (if contains d k then size_od d else Suc (size_od d))"
  by (auto simp: size_od_def insert_od_def Let_def contains_iff map_of_eq_None_iff length_update)

lemma lookup_cache:
  "cache (snd (lookup t v)) = (if contains (cache t) v then move_to_end (cache t) v else cache t)"
  by (auto simp: lookup_def Let_def split_def index_present contains_move)

lemma lookup_size_tlb: "size_tlb (snd (lookup t v)) = size_tlb t"
  by (auto simp: lookup_def Let_def split_def)

lemma size_move: "size_od (move_to_end d k) = size_od d"
  by (simp add: size_od_def move_to_end_def)

lemma insert_tlb_size_tlb: "insert_tlb t v f = Inr t' \<Longrightarrow> size_tlb t' = size_tlb t"
  by (auto simp: insert_tlb_def split: if_splits list.splits)

lemma insert_tlb_inv: "insert_tlb t v f = Inr t' \<Longrightarrow> od_inv (cache t) \<Longrightarrow> od_inv (cache t')"
  by (auto simp: insert_tlb_def od_inv_insert od_inv_erase split: if_splits list.splits)

lemma front_contained: "od_inv d \<Longrightarrow> order_od d = k # ks \<Longrightarrow> contains d k"
  by (auto simp: od_inv_def contains_iff)

lemma insert_tlb_bound:
  assumes "insert_tlb t v f = Inr t'" "od_inv (cache t)" "0 \<le> size_tlb t"
    "int (size_od (cache t)) \<le> size_tlb t"
  shows "int (size_od (cache t')) \<le> size_tlb t"
proof (cases "contains (cache t) v")
  case True
  then have "t' = t\<lparr>cache := insert_od (erase (cache t) v) v f\<rparr>"
    using assms(1) by (simp add: insert_tlb_def)
  moreover have "size_od (insert_od (erase (cache t) v) v f) = size_od (cache t)"
    using size_erase [OF assms(2) True] assms(2) by (simp add: size_insert contains_erase)
  ultimately show ?thesis using assms(4) by simp
next
  case nc: False
  show ?thesis
  proof (cases "int (size_od (cache t)) \<ge> to_size_t (size_tlb t)")
    case True
    then obtain k ks where o: "order_od (cache t) = k # ks"
      and t': "t' = t\<lparr>cache := insert_od (erase (cache t) k) v f\<rparr>"
      using assms(1) nc by (auto simp: insert_tlb_def get_order_def split: list.splits)
    have ck: "contains (cache t) k" using front_contained [OF assms(2) o] .
    have "size_od (insert_od (erase (cache t) k) v f) = size_od (cache t)"
      using size_erase [OF assms(2) ck] assms(2) nc by (simp add: size_insert contains_erase)
    then show ?thesis using t' assms(4) by simp
  next
    case False
    then have "t' = t\<lparr>cache := insert_od (cache t) v f\<rparr>"
      using assms(1) nc by (simp add: insert_tlb_def)
    then show ?thesis using False nc assms(3) by (simp add: size_insert to_size_t_def)
  qed
qed

lemma insert_tlb_defined:
  assumes "od_inv (cache t)" "1 \<le> size_tlb t"
  shows "\<exists>t'. insert_tlb t v f = Inr t'"
proof -
  have "order_od (cache t) \<noteq> []" if "int (size_od (cache t)) \<ge> to_size_t (size_tlb t)"
    using that assms by (auto simp: od_inv_size to_size_t_def)
  then show ?thesis
    by (auto simp: insert_tlb_def get_order_def split: list.splits)
qed

lemma tlb_ok_step: "tlb_ok t \<Longrightarrow> tlb_step t x = Inr t' \<Longrightarrow> tlb_ok t' \<and> size_tlb t' = size_tlb t"
proof (cases x)
  case (Lookup v)
  assume "tlb_ok t" "tlb_step t x = Inr t'"
  then show ?thesis using Lookup
    by (auto simp: tlb_ok_def lookup_cache lookup_size_tlb od_inv_move size_move)
next
  case (Insert v f)
  assume "tlb_ok t" "tlb_step t x = Inr t'"
  then show ?thesis using Insert insert_tlb_bound [of t v f t'] insert_tlb_inv [of t v f t']
      insert_tlb_size_tlb [of t v f t']
    by (simp add: tlb_ok_def)
qed

lemma tlb_ok_run: "tlb_ok t \<Longrightarrow> tlb_run t xs = Inr t' \<Longrightarrow> tlb_ok t' \<and> size_tlb t' = size_tlb t"
proof (induction xs arbitrary: t)
  case Nil
  then show ?case by simp
next
  case (Cons x xs)
  then obtain t1 where s: "tlb_step t x = Inr t1" and r: "tlb_run t1 xs = Inr t'"
    by (auto split: sum.splits)
  from tlb_ok_step [OF Cons.prems(1) s] Cons.IH [OF _ r] show ?case by simp
qed

lemma tlb_run_defined: "tlb_ok t \<Longrightarrow> 1 \<le> size_tlb t \<Longrightarrow> \<exists>t'. tlb_run t xs = Inr t'"
proof (induction xs arbitrary: t)
  case Nil
  then show ?case by simp
next
  case (Cons x xs)
  have "\<exists>t1. tlb_step t x = Inr t1"
    using Cons.prems insert_tlb_defined [of t] by (cases x) (auto simp: tlb_ok_def)
  then obtain t1 where s: "tlb_step t x = Inr t1" ..
  from tlb_ok_step [OF Cons.prems(1) s] Cons.prems(2) Cons.IH [of t1] s show ?case by simp
qed

lemma tlb_ok_new: "0 \<le> c \<Longrightarrow> tlb_ok (TLB_new c)"
  by (simp add: tlb_ok_def TLB_new_def od_inv_new size_new)

lemma tlb_run_append:
  "tlb_run t (xs @ ys) = (case tlb_run t xs of Inl e \<Rightarrow> Inl e | Inr t' \<Rightarrow> tlb_run t' ys)"
  by (induction xs arbitrary: t) (auto split: sum.splits)

lemma insert_tlb_fresh:
  assumes "od_inv (cache t)" "\<not> contains (cache t) v"
    "int (size_od (cache t)) < size_tlb t"
  shows "insert_tlb t v f = Inr (t\<lparr>cache := insert_od (cache t) v f\<rparr>)"
  using assms by (auto simp: insert_tlb_def to_size_t_def)

lemma insert_tlb_evict:
  assumes "od_inv (cache t)" "\<not> contains (cache t) v"
    "to_size_t (size_tlb t) \<le> int (size_od (cache t))" "get_order (cache t) = k # ks"
  shows "insert_tlb t v f = Inr (t\<lparr>cache := insert_od (erase (cache t) k) v f\<rparr>)"
    and "get_order (insert_od (erase (cache t) k) v f) = ks @ [v]"
    and "\<not> contains (insert_od (erase (cache t) k) v f) k"
    and "k' \<noteq> k \<Longrightarrow> k' \<noteq> v \<Longrightarrow>
           contains (insert_od (erase (cache t) k) v f) k' = contains (cache t) k'"
proof -
  have o: "order_od (cache t) = k # ks" using assms(4) by (simp add: get_order_def)
  have ck: "contains (cache t) k" using front_contained [OF assms(1) o] .
  then have kv: "k \<noteq> v" using assms(2) by auto
  show "insert_tlb t v f = Inr (t\<lparr>cache := insert_od (erase (cache t) k) v f\<rparr>)"
    using assms by (simp add: insert_tlb_def)
  show "get_order (insert_od (erase (cache t) k) v f) = ks @ [v]"
    using assms(1,2) ck o by (simp add: get_order_def order_insert contains_erase order_erase)
  show "\<not> contains (insert_od (erase (cache t) k) v f) k"
    using assms(1) kv by (simp add: contains_insert contains_erase)
  show "contains (insert_od (erase (cache t) k) v f) k' = contains (cache t) k'"
    if "k' \<noteq> k" "k' \<noteq> v"
    using that assms(1) by (simp add: contains_insert contains_erase)
qed

lemma fill_below_capacity:
  assumes "tlb_ok t" "distinct (map fst kvs)"
    "set (map fst kvs) \<inter> set (order_od (cache t)) = {}"
    "int (size_od (cache t)) + int (length kvs) \<le> size_tlb t"
  shows "\<exists>t'. tlb_run t (map (case_prod Insert) kvs) = Inr t' \<and>
           order_od (cache t') = order_od (cache t) @ map fst kvs \<and> tlb_ok t' \<and>
           size_tlb t' = size_tlb t \<and> hits t' = hits t \<and> misses t' = misses t"
  using assms
proof (induction kvs arbitrary: t)
  case Nil
  then show ?case by simp
next
  case (Cons kv kvs)
  obtain v f where kv: "kv = (v, f)" by (cases kv)
  have inv: "od_inv (cache t)" using Cons.prems(1) by (simp add: tlb_ok_def)
  have nc: "\<not> contains (cache t) v"
    using Cons.prems(3) inv kv by (auto simp: contains_iff od_inv_def)
  define t1 where "t1 = t\<lparr>cache := insert_od (cache t) v f\<rparr>"
  have step: "insert_tlb t v f = Inr t1"
    unfolding t1_def using Cons.prems(4) by (intro insert_tlb_fresh [OF inv nc]) simp
  have ok1: "tlb_ok t1"
    using tlb_ok_step [of t "Insert v f" t1] Cons.prems(1) step by simp
  have o1: "order_od (cache t1) = order_od (cache t) @ [v]"
    using nc by (simp add: t1_def order_insert)
  have s1: "size_od (cache t1) = Suc (size_od (cache t))"
    using nc by (simp add: t1_def size_insert)
  have "\<exists>t'. tlb_run t1 (map (case_prod Insert) kvs) = Inr t' \<and>
           order_od (cache t') = order_od (cache t1) @ map fst kvs \<and> tlb_ok t' \<and>
           size_tlb t' = size_tlb t1 \<and> hits t' = hits t1 \<and> misses t' = misses t1"
  proof (rule Cons.IH [OF ok1])
    show "distinct (map fst kvs)" using Cons.prems(2) by simp
    show "set (map fst kvs) \<inter> set (order_od (cache t1)) = {}"
      using Cons.prems(2,3) kv by (auto simp: o1)
    show "int (size_od (cache t1)) + int (length kvs) \<le> size_tlb t1"
      using Cons.prems(4) s1 by (simp add: t1_def)
  qed
  then show ?case using step kv o1 by (auto simp: t1_def)
qed

lemma lookup_miss: "\<not> contains (cache t) v \<Longrightarrow> lookup t v = (- 1, t\<lparr>misses := int32 (misses t + 1)\<rparr>)"
  by (simp add: lookup_def)

lemma lookup_hit_order:
  "contains (cache t) v \<Longrightarrow> od_inv (cache t) \<Longrightarrow>
     get_order (cache (snd (lookup t v))) = remove1 v (get_order (cache t)) @ [v]"
  by (auto simp: lookup_cache get_order_def move_to_end_def contains_iff od_inv_def)

lemma int32_id: "- 2147483648 \<le> x \<Longrightarrow> x \<le> 2147483647 \<Longrightarrow> int32 x = x"
  by (simp add: int32_def)

lemma int32_add_left: "int32 (int32 a + b) = int32 (a + b)"
  by (simp add: int32_def mod_simps ac_simps)

lemma int32_add_right: "int32 (a + int32 b) = int32 (a + b)"
  using int32_add_left [of b a] by (simp add: add.commute)



lemma int32_idem: "int32 (int32 x) = int32 x"
  using int32_add_left [of x 0] by simp






lemma contains_order: "od_inv d \<Longrightarrow> contains d k \<longleftrightarrow> k \<in> set (get_order d)"
  by (simp add: contains_iff od_inv_def get_order_def)

lemma order_length_le: "tlb_ok t \<Longrightarrow> int (length (get_order (cache t))) \<le> size_tlb t"
proof -
  assume a: "tlb_ok t"
  then have "od_inv (cache t)" by (simp add: tlb_ok_def)
  then have "size_od (cache t) = length (order_od (cache t))" by (rule od_inv_size)
  then show ?thesis using a by (simp add: tlb_ok_def get_order_def)
qed

lemma most_recent_all: "length xs \<le> c \<Longrightarrow> most_recent c xs = xs"
  by (simp add: most_recent_def)

lemma most_recent_front:
  "xs \<noteq> [] \<Longrightarrow> length xs = c \<Longrightarrow> most_recent c (tl xs @ v # ys) = most_recent c (xs @ v # ys)"
  by (cases xs) (simp_all add: most_recent_def Suc_diff_le)

lemma run_without_hits:
  assumes "tlb_ok t" "1 \<le> size_tlb t" "set (get_order (cache t)) \<subseteq> set seen"
    "distinct (inserted_vpns ops)" "set (inserted_vpns ops) \<inter> set seen = {}"
    "no_repeated_lookups seen ops" "int32 (misses t) = misses t"
  shows "\<exists>t'. tlb_run t ops = Inr t' \<and> tlb_ok t' \<and> size_tlb t' = size_tlb t \<and>
     hits t' = hits t \<and>
     misses t' = int32 (misses t + (int (length ops) - int (length (inserted_vpns ops)))) \<and>
     get_order (cache t') =
       most_recent (nat (size_tlb t)) (get_order (cache t) @ inserted_vpns ops)"
  using assms
proof (induction ops arbitrary: t seen)
  case Nil
  have "length (get_order (cache t)) \<le> nat (size_tlb t)"
    using order_length_le [OF Nil.prems(1)] by simp
  then show ?case using Nil.prems(1,7) by (simp add: most_recent_all)
next
  case (Cons x ops)
  have inv: "od_inv (cache t)" using Cons.prems(1) by (simp add: tlb_ok_def)
  have len: "int (length (get_order (cache t))) \<le> size_tlb t"
    using Cons.prems(1) by (rule order_length_le)
  have sz: "size_od (cache t) = length (get_order (cache t))"
    using od_inv_size [OF inv] by (simp add: get_order_def)
  show ?case
  proof (cases x)
    case (Lookup v)
    have nc: "\<not> contains (cache t) v"
      using Cons.prems(3,6) Lookup inv by (auto simp: contains_order)
    define t1 where "t1 = t\<lparr>misses := int32 (misses t + 1)\<rparr>"
    have l: "lookup t v = (- 1, t1)" unfolding t1_def by (rule lookup_miss [OF nc])
    have ok1: "tlb_ok t1" using Cons.prems(1) by (simp add: t1_def tlb_ok_def)
    have "\<exists>t'. tlb_run t1 ops = Inr t' \<and> tlb_ok t' \<and> size_tlb t' = size_tlb t1 \<and>
       hits t' = hits t1 \<and>
       misses t' = int32 (misses t1 + (int (length ops) - int (length (inserted_vpns ops)))) \<and>
       get_order (cache t') =
         most_recent (nat (size_tlb t1)) (get_order (cache t1) @ inserted_vpns ops)"
    proof (rule Cons.IH [OF ok1, of seen])
      show "1 \<le> size_tlb t1" using Cons.prems(2) by (simp add: t1_def)
      show "set (get_order (cache t1)) \<subseteq> set seen" using Cons.prems(3) by (simp add: t1_def)
      show "distinct (inserted_vpns ops)" using Cons.prems(4) Lookup by simp
      show "set (inserted_vpns ops) \<inter> set seen = {}" using Cons.prems(5) Lookup by simp
      show "no_repeated_lookups seen ops" using Cons.prems(6) Lookup by simp
      show "int32 (misses t1) = misses t1" by (simp add: t1_def int32_idem)
    qed
    then obtain t' where r: "tlb_run t1 ops = Inr t'" and ok': "tlb_ok t'"
      and sz': "size_tlb t' = size_tlb t1" and h: "hits t' = hits t1"
      and m: "misses t' = int32 (misses t1 + (int (length ops) - int (length (inserted_vpns ops))))"
      and o: "get_order (cache t') =
         most_recent (nat (size_tlb t1)) (get_order (cache t1) @ inserted_vpns ops)"
      by blast
    have st: "size_tlb t1 = size_tlb t" "hits t1 = hits t" "cache t1 = cache t"
      by (simp_all add: t1_def)
    have "int32 (misses t1 + (int (length ops) - int (length (inserted_vpns ops))))
        = int32 (misses t + 1 + (int (length ops) - int (length (inserted_vpns ops))))"
      unfolding t1_def by (simp add: int32_add_left)
    also have "misses t + 1 + (int (length ops) - int (length (inserted_vpns ops)))
        = misses t + (int (length (x # ops)) - int (length (inserted_vpns (x # ops))))"
      using Lookup by simp
    finally have m': "misses t' =
        int32 (misses t + (int (length (x # ops)) - int (length (inserted_vpns (x # ops)))))"
      using m by simp
    have run: "tlb_run t (x # ops) = Inr t'" using Lookup l r by simp
    have o': "get_order (cache t') =
        most_recent (nat (size_tlb t)) (get_order (cache t) @ inserted_vpns (x # ops))"
      using o Lookup by (simp only: st inserted_vpns.simps)
    show ?thesis
      using run ok' sz' h m' o' unfolding st by blast
  next
    case (Insert v f)
    have vs: "v \<notin> set seen" using Cons.prems(5) Insert by simp
    then have nc: "\<not> contains (cache t) v"
      using Cons.prems(3) inv by (auto simp: contains_order)
    have rest: "distinct (inserted_vpns ops)"
      "set (inserted_vpns ops) \<inter> set (v # seen) = {}" "no_repeated_lookups (v # seen) ops"
      using Cons.prems(4,5,6) Insert by auto
    have cnt: "int (length (x # ops)) - int (length (inserted_vpns (x # ops)))
        = int (length ops) - int (length (inserted_vpns ops))"
      using Insert by simp
    show ?thesis
    proof (cases "int (length (get_order (cache t))) < size_tlb t")
      case True
      define t1 where "t1 = t\<lparr>cache := insert_od (cache t) v f\<rparr>"
      have step: "insert_tlb t v f = Inr t1"
        unfolding t1_def using True
        by (intro insert_tlb_fresh [OF inv nc]) (simp add: sz)
      have ok1: "tlb_ok t1"
        using tlb_ok_step [of t "Insert v f" t1] Cons.prems(1) step by simp
      have o1: "get_order (cache t1) = get_order (cache t) @ [v]"
        using nc by (simp add: t1_def order_insert get_order_def)
      have "\<exists>t'. tlb_run t1 ops = Inr t' \<and> tlb_ok t' \<and> size_tlb t' = size_tlb t1 \<and>
         hits t' = hits t1 \<and>
         misses t' = int32 (misses t1 + (int (length ops) - int (length (inserted_vpns ops)))) \<and>
         get_order (cache t') =
           most_recent (nat (size_tlb t1)) (get_order (cache t1) @ inserted_vpns ops)"
      proof (rule Cons.IH [OF ok1, of "v # seen"])
        show "1 \<le> size_tlb t1" using Cons.prems(2) by (simp add: t1_def)
        show "set (get_order (cache t1)) \<subseteq> set (v # seen)"
          using Cons.prems(3) by (auto simp: o1)
      qed (use rest Cons.prems(7) in \<open>simp_all add: t1_def\<close>)
      then obtain t' where r: "tlb_run t1 ops = Inr t'" and ok': "tlb_ok t'"
        and sz': "size_tlb t' = size_tlb t1" and h: "hits t' = hits t1"
        and m: "misses t' = int32 (misses t1 + (int (length ops) - int (length (inserted_vpns ops))))"
        and o: "get_order (cache t') =
           most_recent (nat (size_tlb t1)) (get_order (cache t1) @ inserted_vpns ops)"
        by blast
      have st: "size_tlb t1 = size_tlb t" "hits t1 = hits t" "misses t1 = misses t"
        by (simp_all add: t1_def)
      have run: "tlb_run t (x # ops) = Inr t'" using Insert step r by simp
      have o': "get_order (cache t') =
          most_recent (nat (size_tlb t)) (get_order (cache t) @ inserted_vpns (x # ops))"
        using o st(1) Insert by (simp only: o1 append_assoc append_Cons append_Nil inserted_vpns.simps)
      show ?thesis
        using run ok' sz' h m o' unfolding st cnt by blast
    next
      case False
      then have full: "length (get_order (cache t)) = nat (size_tlb t)" using len by simp
      then have ne: "get_order (cache t) \<noteq> []" using Cons.prems(2) by auto
      then obtain k ks where g: "get_order (cache t) = k # ks" by (cases "get_order (cache t)") auto
      have cap: "to_size_t (size_tlb t) \<le> int (size_od (cache t))"
        using full Cons.prems(2) by (simp add: to_size_t_def sz)
      define t1 where "t1 = t\<lparr>cache := insert_od (erase (cache t) k) v f\<rparr>"
      note ev = insert_tlb_evict [OF inv nc cap g, of f]
      have step: "insert_tlb t v f = Inr t1" unfolding t1_def by (rule ev(1))
      have ok1: "tlb_ok t1"
        using tlb_ok_step [of t "Insert v f" t1] Cons.prems(1) step by simp
      have o1: "get_order (cache t1) = tl (get_order (cache t)) @ [v]"
        using ev(2) by (simp add: t1_def g)
      have st: "size_tlb t1 = size_tlb t" "hits t1 = hits t" "misses t1 = misses t"
        by (simp_all add: t1_def)
      have "\<exists>t'. tlb_run t1 ops = Inr t' \<and> tlb_ok t' \<and> size_tlb t' = size_tlb t1 \<and>
         hits t' = hits t1 \<and>
         misses t' = int32 (misses t1 + (int (length ops) - int (length (inserted_vpns ops)))) \<and>
         get_order (cache t') =
           most_recent (nat (size_tlb t1)) (get_order (cache t1) @ inserted_vpns ops)"
      proof (rule Cons.IH [OF ok1, of "v # seen"])
        show "1 \<le> size_tlb t1" using Cons.prems(2) by (simp add: t1_def)
        show "set (get_order (cache t1)) \<subseteq> set (v # seen)"
          using Cons.prems(3) g by (auto simp: o1)
      qed (use rest Cons.prems(7) in \<open>simp_all add: t1_def\<close>)
      then obtain t' where r: "tlb_run t1 ops = Inr t'" and ok': "tlb_ok t'"
        and sz': "size_tlb t' = size_tlb t1" and h: "hits t' = hits t1"
        and m: "misses t' = int32 (misses t1 + (int (length ops) - int (length (inserted_vpns ops))))"
        and o: "get_order (cache t') =
           most_recent (nat (size_tlb t1)) (get_order (cache t1) @ inserted_vpns ops)"
        by blast
      have "get_order (cache t') =
          most_recent (nat (size_tlb t)) (tl (get_order (cache t)) @ v # inserted_vpns ops)"
        using o st(1) by (simp only: o1 append_assoc append_Cons append_Nil)
      also have "\<dots> = most_recent (nat (size_tlb t)) (get_order (cache t) @ v # inserted_vpns ops)"
        by (rule most_recent_front [OF ne full])
      finally have o': "get_order (cache t') =
          most_recent (nat (size_tlb t)) (get_order (cache t) @ inserted_vpns (x # ops))"
        using Insert by (simp only: inserted_vpns.simps)
      have run: "tlb_run t (x # ops) = Inr t'" using Insert step r by simp
      show ?thesis
        using run ok' sz' h m o' unfolding st cnt by blast
    qed
  qed
qed

lemma insert_tlb_cached:
  assumes "od_inv (cache t)" "contains (cache t) v"
  shows "insert_tlb t v f = Inr (t\<lparr>cache := insert_od (erase (cache t) v) v f\<rparr>)"
    and "get_order (insert_od (erase (cache t) v) v f) = remove1 v (get_order (cache t)) @ [v]"
    and "contains (insert_od (erase (cache t) v) v f) k = contains (cache t) k"
proof -
  show "insert_tlb t v f = Inr (t\<lparr>cache := insert_od (erase (cache t) v) v f\<rparr>)"
    using assms(2) by (simp add: insert_tlb_def)
  show "get_order (insert_od (erase (cache t) v) v f) = remove1 v (get_order (cache t)) @ [v]"
    using assms by (simp add: get_order_def order_insert contains_erase order_erase)
  show "contains (insert_od (erase (cache t) v) v f) k = contains (cache t) k"
    using assms by (auto simp: contains_insert contains_erase)
qed

section \<open>Lemmas: the frame allocator\<close>

lemma length_mark_allocated: "length (mark_allocated fr j hi) = length fr"
proof (induction fr j hi rule: mark_allocated.induct)
  case (1 frames j hi)
  then show ?case by (subst mark_allocated.simps) simp
qed

lemma nth_mark_allocated:
  "0 \<le> j \<Longrightarrow> i < length fr \<Longrightarrow>
     mark_allocated fr j hi ! i = (fr ! i \<or> (j \<le> int i \<and> int i < hi))"
proof (induction fr j hi rule: mark_allocated.induct)
  case (1 frames j hi)
  show ?case
  proof (cases "j < hi")
    case True
    have "mark_allocated frames j hi ! i = mark_allocated (frames[nat j := True]) (j + 1) hi ! i"
      using True by (subst mark_allocated.simps) simp
    also have "\<dots> = ((frames[nat j := True]) ! i \<or> (j + 1 \<le> int i \<and> int i < hi))"
      using "1.IH" [OF True] "1.prems" by simp
    also have "\<dots> = (frames ! i \<or> (j \<le> int i \<and> int i < hi))"
      using "1.prems" True by (cases "i = nat j") (auto simp: nth_list_update)
    finally show ?thesis .
  next
    case False
    then show ?thesis by (subst mark_allocated.simps) auto
  qed
qed

lemma find_false_le: "find_false fr \<le> length fr"
  by (induction fr) auto

lemma find_false_free: "find_false fr < length fr \<Longrightarrow> \<not> fr ! find_false fr"
  by (induction fr) (auto split: if_splits)

lemma find_false_before: "j < find_false fr \<Longrightarrow> fr ! j"
proof (induction fr arbitrary: j)
  case Nil
  then show ?case by simp
next
  case (Cons b bs)
  then show ?case by (cases j) (auto split: if_splits)
qed

lemma free_run_1: "free_run fr p (Suc 0) \<longleftrightarrow> p < length fr \<and> \<not> fr ! p"
  by (auto simp: free_run_def)

lemma scan_frames_correct:
  "1 \<le> k \<Longrightarrow> i \<le> length fr \<Longrightarrow> 0 \<le> cnt \<Longrightarrow> cnt < k \<Longrightarrow> nat cnt \<le> i \<Longrightarrow>
     (\<forall>j. i - nat cnt \<le> j \<and> j < i \<longrightarrow> \<not> fr ! j) \<Longrightarrow>
     (0 < cnt \<longrightarrow> start = int i - cnt) \<Longrightarrow>
     (nat cnt < i \<longrightarrow> fr ! (i - nat cnt - 1)) \<Longrightarrow>
     (\<forall>p. p + nat k \<le> i \<longrightarrow> \<not> free_run fr p (nat k)) \<Longrightarrow>
     scan_frames fr k i cnt start = (r, fr') \<Longrightarrow>
     (r = - 1 \<and> fr' = fr \<and> (\<forall>p. \<not> free_run fr p (nat k))) \<or>
     (0 \<le> r \<and> free_run fr (nat r) (nat k) \<and> (\<forall>p<nat r. \<not> free_run fr p (nat k)) \<and>
        fr' = mark_allocated fr r (r + k))"
proof (induction fr k i cnt start rule: scan_frames.induct)
  case (1 frames num_frames i c s)
  have k: "1 \<le> num_frames" and il: "i \<le> length frames" and c0: "0 \<le> c"
    and ck: "c < num_frames" and ci: "nat c \<le> i"
    and fr: "\<forall>j. i - nat c \<le> j \<and> j < i \<longrightarrow> \<not> frames ! j"
    and st: "0 < c \<longrightarrow> s = int i - c"
    and mx: "nat c < i \<longrightarrow> frames ! (i - nat c - 1)"
    and none: "\<forall>p. p + nat num_frames \<le> i \<longrightarrow> \<not> free_run frames p (nat num_frames)"
    and sc: "scan_frames frames num_frames i c s = (r, fr')"
    using "1.prems" by blast+
  show ?case
  proof (cases "i < length frames")
    case False
    then have il: "i = length frames" using il by simp
    have "r = - 1" "fr' = frames"
      using sc False by (subst (asm) scan_frames.simps, simp)+
    moreover have "\<not> free_run frames p (nat num_frames)" for p
    proof (cases "p + nat num_frames \<le> i")
      case True
      then show ?thesis using none by blast
    next
      case False
      then show ?thesis using il by (simp add: free_run_def)
    qed
    ultimately show ?thesis by blast
  next
    case True
    define s1 where "s1 = (if \<not> frames ! i then (if c = 0 then int i else s) else - 1)"
    define c1 where "c1 = (if \<not> frames ! i then c + 1 else 0)"
    show ?thesis
    proof (cases "c1 = num_frames")
      case found: True
      then have fi: "\<not> frames ! i" and c: "c + 1 = num_frames"
        using k by (auto simp: c1_def split: if_splits)
      have s1: "s1 = int i - c" using fi st c0 by (auto simp: s1_def)
      have res: "r = s1" "fr' = mark_allocated frames s1 (s1 + num_frames)"
        using sc True found
        by (subst (asm) scan_frames.simps, simp add: s1_def c1_def Let_def)+
      have r0: "0 \<le> s1" using s1 ci c0 by linarith
      have nr: "nat s1 = i - nat c" using s1 ci c0 by linarith
      have run: "free_run frames (nat s1) (nat num_frames)"
        unfolding free_run_def
      proof (intro conjI allI impI)
        show "nat s1 + nat num_frames \<le> length frames"
          using nr c True ci c0 by linarith
        fix j assume "j < nat num_frames"
        then have "i - nat c \<le> nat s1 + j \<and> nat s1 + j \<le> i"
          using nr c ci c0 by linarith
        then show "\<not> frames ! (nat s1 + j)"
          using fr fi by (cases "nat s1 + j = i") auto
      qed
      have least: "\<not> free_run frames p (nat num_frames)" if "p < nat s1" for p
      proof -
        have "p + nat num_frames \<le> i" using that nr c ci c0 by linarith
        then show ?thesis using none by blast
      qed
      show ?thesis using res r0 run least by blast
    next
      case nf: False
      have rec: "scan_frames frames num_frames (Suc i) c1 s1 = (r, fr')"
        using sc True nf
        by (subst (asm) scan_frames.simps) (simp add: s1_def c1_def Let_def)
      have c1b: "0 \<le> c1" "c1 < num_frames" "nat c1 \<le> Suc i"
        using nf c0 ck ci k by (auto simp: c1_def)
      have free1: "\<forall>j. Suc i - nat c1 \<le> j \<and> j < Suc i \<longrightarrow> \<not> frames ! j"
      proof (intro allI impI)
        fix j assume j: "Suc i - nat c1 \<le> j \<and> j < Suc i"
        show "\<not> frames ! j"
        proof (cases "frames ! i")
          case True
          then have "c1 = 0" by (simp add: c1_def)
          then show ?thesis using j by auto
        next
          case False
          then have "c1 = c + 1" by (simp add: c1_def)
          then have "i - nat c \<le> j" using j c0 ci by linarith
          then show ?thesis using False j fr by (cases "j = i") auto
        qed
      qed
      have st1: "0 < c1 \<longrightarrow> s1 = int (Suc i) - c1"
        using c0 st by (auto simp: c1_def s1_def)
      have max1: "nat c1 < Suc i \<longrightarrow> frames ! (Suc i - nat c1 - 1)"
      proof (cases "frames ! i")
        case True
        then show ?thesis by (simp add: c1_def)
      next
        case False
        then have e: "c1 = c + 1" by (simp add: c1_def)
        show ?thesis
        proof
          assume "nat c1 < Suc i"
          then have "nat c < i" using e c0 by linarith
          moreover have "Suc i - nat c1 - 1 = i - nat c - 1" using e c0 by linarith
          ultimately show "frames ! (Suc i - nat c1 - 1)" using mx by simp
        qed
      qed
      have none1: "\<forall>p. p + nat num_frames \<le> Suc i \<longrightarrow> \<not> free_run frames p (nat num_frames)"
      proof (intro allI impI)
        fix p assume p: "p + nat num_frames \<le> Suc i"
        show "\<not> free_run frames p (nat num_frames)"
        proof (cases "p + nat num_frames \<le> i")
          case True
          then show ?thesis using none by blast
        next
          case False
          then have pe: "p + nat num_frames = Suc i" using p by simp
          show ?thesis
          proof (cases "frames ! i")
            case True
            have "i - p < nat num_frames" "p + (i - p) = i" using pe k by arith+
            then show ?thesis using True unfolding free_run_def by metis
          next
            case False
            then have e: "c1 = c + 1" by (simp add: c1_def)
            then have lt: "c + 1 < num_frames" using c1b by simp
            then have "nat c < i" using pe c0 by linarith
            then have al: "frames ! (i - nat c - 1)" using mx by simp
            have "(i - nat c - 1) - p < nat num_frames" "p + ((i - nat c - 1) - p) = i - nat c - 1"
              using pe lt c0 \<open>nat c < i\<close> by arith+
            then show ?thesis using al unfolding free_run_def by metis
          qed
        qed
      qed
      show ?thesis
        using "1.IH" [OF True s1_def c1_def nf k _ c1b free1 st1 max1 none1 rec] True
        by simp
    qed
  qed
qed

lemma find_and_allocate_cases:
  assumes "1 \<le> k" "find_and_allocate_physical_frames fr k = (r, fr')"
  shows "(r = - 1 \<and> fr' = fr \<and> (\<forall>p. \<not> free_run fr p (nat k))) \<or>
     (0 \<le> r \<and> free_run fr (nat r) (nat k) \<and> (\<forall>p<nat r. \<not> free_run fr p (nat k)) \<and>
        length fr' = length fr \<and>
        (\<forall>i<length fr. fr' ! i = (fr ! i \<or> (nat r \<le> i \<and> i < nat r + nat k))))"
proof (cases "k = 1")
  case True
  show ?thesis
  proof (cases "find_false fr = length fr")
    case full: True
    then have "r = - 1" "fr' = fr"
      using assms(2) True by (simp_all add: find_and_allocate_physical_frames_def Let_def)
    moreover have "\<not> free_run fr p (nat k)" for p
      using full find_false_before [of p fr] True by (auto simp: free_run_1)
    ultimately show ?thesis by blast
  next
    case False
    then have lt: "find_false fr < length fr" using find_false_le [of fr] by simp
    have res: "r = int (find_false fr)" "fr' = fr[find_false fr := True]"
      using assms(2) True False by (simp_all add: find_and_allocate_physical_frames_def Let_def)
    have "free_run fr (nat r) (nat k)"
      using res lt find_false_free [OF lt] True by (simp add: free_run_1)
    moreover have "\<forall>p<nat r. \<not> free_run fr p (nat k)"
      using res find_false_before [of _ fr] True by (auto simp: free_run_1)
    moreover have "\<forall>i<length fr. fr' ! i = (fr ! i \<or> (nat r \<le> i \<and> i < nat r + nat k))"
    proof (intro allI impI)
      fix i assume il: "i < length fr"
      have nr: "nat r = find_false fr" "nat k = Suc 0" using res True by simp_all
      show "fr' ! i = (fr ! i \<or> (nat r \<le> i \<and> i < nat r + nat k))"
      proof (cases "i = find_false fr")
        case True
        then have "fr' ! i" using res il by simp
        then show ?thesis using True nr by simp
      next
        case False
        then have "fr' ! i = fr ! i" using res by simp
        moreover have "\<not> (nat r \<le> i \<and> i < nat r + nat k)" using False nr by linarith
        ultimately show ?thesis by blast
      qed
    qed
    ultimately show ?thesis using res by simp
  qed
next
  case False
  then have sc: "scan_frames fr k 0 0 (- 1) = (r, fr')"
    using assms(2) by (simp add: find_and_allocate_physical_frames_def)
  have "(r = - 1 \<and> fr' = fr \<and> (\<forall>p. \<not> free_run fr p (nat k))) \<or>
     (0 \<le> r \<and> free_run fr (nat r) (nat k) \<and> (\<forall>p<nat r. \<not> free_run fr p (nat k)) \<and>
        fr' = mark_allocated fr r (r + k))"
    using assms(1) False by (intro scan_frames_correct [OF assms(1) _ _ _ _ _ _ _ _ sc]) auto
  then show ?thesis
  proof
    assume "r = - 1 \<and> fr' = fr \<and> (\<forall>p. \<not> free_run fr p (nat k))"
    then show ?thesis by blast
  next
    assume a: "0 \<le> r \<and> free_run fr (nat r) (nat k) \<and> (\<forall>p<nat r. \<not> free_run fr p (nat k)) \<and>
        fr' = mark_allocated fr r (r + k)"
    then have r0: "0 \<le> r" and fr': "fr' = mark_allocated fr r (r + k)" by simp_all
    have "length fr' = length fr" using fr' by (simp add: length_mark_allocated)
    moreover have "\<forall>i<length fr. fr' ! i = (fr ! i \<or> (nat r \<le> i \<and> i < nat r + nat k))"
    proof (intro allI impI)
      fix i assume "i < length fr"
      then have "fr' ! i = (fr ! i \<or> (r \<le> int i \<and> int i < r + k))"
        unfolding fr' by (rule nth_mark_allocated [OF r0])
      moreover have "(r \<le> int i \<and> int i < r + k) = (nat r \<le> i \<and> i < nat r + nat k)"
        using r0 assms(1) by linarith
      ultimately show "fr' ! i = (fr ! i \<or> (nat r \<le> i \<and> i < nat r + nat k))" by simp
    qed
    ultimately show ?thesis using a by blast
  qed
qed

section \<open>Lemmas: allocate and translate\<close>

lemma faa_fail_unchanged:
  "1 \<le> k \<Longrightarrow> find_and_allocate_physical_frames fr k = (- 1, fr') \<Longrightarrow> fr' = fr"
  using find_and_allocate_cases [of k fr "- 1" fr'] by auto

lemma allocate_pages_done: "\<not> i < n \<Longrightarrow> allocate_pages s va ps n i = Inr s"
  by (subst allocate_pages.simps) simp

lemma allocate_pages_skip:
  "i < n \<Longrightarrow> page_table s (int32 (cdiv va ps + i)) \<noteq> None \<Longrightarrow>
     allocate_pages s va ps n i = allocate_pages s va ps n (i + 1)"
  by (subst allocate_pages.simps) (auto simp: Let_def)

lemma allocate_pages_fail:
  "i < n \<Longrightarrow> page_table s (int32 (cdiv va ps + i)) = None \<Longrightarrow>
     find_and_allocate_physical_frames (physical_frames s) (cdiv ps SMALL_PAGE_SIZE) = (- 1, frames) \<Longrightarrow>
     allocate_pages s va ps n i = Inl (OutOfMemory, s\<lparr>physical_frames := frames\<rparr>)"
  by (subst allocate_pages.simps) (simp add: Let_def)

lemma allocate_pages_new:
  "i < n \<Longrightarrow> page_table s (int32 (cdiv va ps + i)) = None \<Longrightarrow>
     find_and_allocate_physical_frames (physical_frames s) (cdiv ps SMALL_PAGE_SIZE) = (pfn, frames) \<Longrightarrow>
     pfn \<noteq> - 1 \<Longrightarrow>
     s1 = s\<lparr>physical_frames := frames,
           page_table := (page_table s)(int32 (cdiv va ps + i) \<mapsto> (pfn, ps))\<rparr> \<Longrightarrow>
     allocate_pages s va ps n i = allocate_pages s1 va ps n (i + 1)"
  by (subst allocate_pages.simps) (simp add: Let_def)

lemma allocate_pages_cases [case_names finished present oom fresh]:
  assumes "\<And>s i. \<not> i < n \<Longrightarrow> P s i"
    and "\<And>s i. i < n \<Longrightarrow> page_table s (int32 (cdiv va ps + i)) \<noteq> None \<Longrightarrow> P s (i + 1) \<Longrightarrow> P s i"
    and "\<And>s i frames. i < n \<Longrightarrow> page_table s (int32 (cdiv va ps + i)) = None \<Longrightarrow>
           find_and_allocate_physical_frames (physical_frames s) (cdiv ps SMALL_PAGE_SIZE)
             = (- 1, frames) \<Longrightarrow> P s i"
    and "\<And>s i pfn frames s1. i < n \<Longrightarrow> page_table s (int32 (cdiv va ps + i)) = None \<Longrightarrow>
           find_and_allocate_physical_frames (physical_frames s) (cdiv ps SMALL_PAGE_SIZE)
             = (pfn, frames) \<Longrightarrow> pfn \<noteq> - 1 \<Longrightarrow>
           s1 = s\<lparr>physical_frames := frames,
                 page_table := (page_table s)(int32 (cdiv va ps + i) \<mapsto> (pfn, ps))\<rparr> \<Longrightarrow>
           P s1 (i + 1) \<Longrightarrow> P s i"
  shows "P s i"
proof (induction "nat (n - i)" arbitrary: s i)
  case 0
  then show ?case using assms(1) by simp
next
  case (Suc m)
  then have lt: "i < n" and m: "m = nat (n - (i + 1))" by linarith+
  show ?case
  proof (cases "page_table s (int32 (cdiv va ps + i)) = None")
    case False
    then show ?thesis using assms(2) [OF lt] Suc.hyps(1) [OF m] by blast
  next
    case True
    obtain pfn frames where f: "find_and_allocate_physical_frames (physical_frames s)
          (cdiv ps SMALL_PAGE_SIZE) = (pfn, frames)"
      by (cases "find_and_allocate_physical_frames (physical_frames s) (cdiv ps SMALL_PAGE_SIZE)")
    show ?thesis
    proof (cases "pfn = - 1")
      case True
      then show ?thesis using assms(3) [OF lt \<open>page_table s _ = None\<close>] f by blast
    next
      case False
      then show ?thesis
        using assms(4) [OF lt \<open>page_table s _ = None\<close> f False refl] Suc.hyps(1) [OF m] by blast
    qed
  qed
qed

lemma allocate_pages_frame:
  "internal_fragmentation (after_allocate (allocate_pages s va ps n i)) = internal_fragmentation s \<and>
   tlb (after_allocate (allocate_pages s va ps n i)) = tlb s \<and>
   policy_engine (after_allocate (allocate_pages s va ps n i)) = policy_engine s \<and>
   page_table s \<subseteq>\<^sub>m page_table (after_allocate (allocate_pages s va ps n i))"
proof (induction s i rule: allocate_pages_cases [where n = n and va = va and ps = ps])
  case (finished s i)
  then show ?case by (simp add: allocate_pages_done after_allocate_def)
next
  case (present s i)
  then show ?case by (simp add: allocate_pages_skip)
next
  case (oom s i frames)
  then show ?case by (simp add: allocate_pages_fail after_allocate_def)
next
  case (fresh s i pfn frames s1)
  have pt: "page_table s1 = (page_table s)(int32 (cdiv va ps + i) \<mapsto> (pfn, ps))"
    and others: "internal_fragmentation s1 = internal_fragmentation s" "tlb s1 = tlb s"
      "policy_engine s1 = policy_engine s"
    using fresh(5) by simp_all
  have "page_table s \<subseteq>\<^sub>m page_table s1"
    unfolding pt using fresh(2) by (auto simp: map_le_def)
  then have "page_table s \<subseteq>\<^sub>m page_table (after_allocate (allocate_pages s1 va ps n (i + 1)))"
    using fresh(6) map_le_trans by blast
  then show ?case
    using fresh(6) others unfolding allocate_pages_new [OF fresh(1-5)] by simp
qed

lemma map_le_present: "m \<subseteq>\<^sub>m m' \<Longrightarrow> m k \<noteq> None \<Longrightarrow> m' k \<noteq> None"
  by (auto simp: map_le_def dom_def)

lemma allocate_pages_map_le:
  "allocate_pages s va ps n i = Inl (e, s') \<Longrightarrow> page_table s \<subseteq>\<^sub>m page_table s'"
  "allocate_pages s va ps n i = Inr s' \<Longrightarrow> page_table s \<subseteq>\<^sub>m page_table s'"
  using allocate_pages_frame [of s va ps n i] by (simp_all add: after_allocate_def)

lemma allocate_pages_Inl:
  assumes "1 \<le> cdiv ps SMALL_PAGE_SIZE"
  shows "allocate_pages s va ps n i = Inl (e, s') \<longrightarrow>
     e = OutOfMemory \<and> (\<exists>j. i \<le> j \<and> j < n \<and> oom_at s s' va ps i j)"
proof (induction s i rule: allocate_pages_cases [where n = n and va = va and ps = ps])
  case (finished s i)
  then show ?case by (simp add: allocate_pages_done)
next
  case (present s i)
  show ?case
  proof
    assume a: "allocate_pages s va ps n i = Inl (e, s')"
    then have r: "allocate_pages s va ps n (i + 1) = Inl (e, s')"
      using present(1,2) by (simp add: allocate_pages_skip)
    then obtain j where e: "e = OutOfMemory" and j: "i + 1 \<le> j" "j < n"
      and o: "oom_at s s' va ps (i + 1) j"
      using present(3) by blast
    have here: "page_table s' (int32 (cdiv va ps + i)) \<noteq> None"
      using map_le_present [OF allocate_pages_map_le(1) [OF r] present(2)] .
    have "oom_at s s' va ps i j"
      unfolding oom_at_def
    proof (intro conjI allI impI)
      show "page_table s' (int32 (cdiv va ps + j)) = None"
        and "fst (find_and_allocate_physical_frames (physical_frames s')
            (cdiv ps SMALL_PAGE_SIZE)) = - 1"
        using o by (simp_all add: oom_at_def)
    next
      fix i' assume "i \<le> i' \<and> i' < j"
      then show "page_table s' (int32 (cdiv va ps + i')) \<noteq> None"
        using o here by (cases "i' = i") (auto simp: oom_at_def)
    next
      fix v assume "page_table s' v \<noteq> None"
      then have "page_table s v \<noteq> None \<or>
        (\<exists>i'. i + 1 \<le> i' \<and> i' < j \<and> v = int32 (cdiv va ps + i'))"
        using o by (simp add: oom_at_def)
      then show "page_table s v \<noteq> None \<or>
        (\<exists>i'. i \<le> i' \<and> i' < j \<and> v = int32 (cdiv va ps + i'))"
      proof
        assume "page_table s v \<noteq> None"
        then show ?thesis by simp
      next
        assume "\<exists>i'. i + 1 \<le> i' \<and> i' < j \<and> v = int32 (cdiv va ps + i')"
        then obtain i' where "i + 1 \<le> i'" "i' < j" "v = int32 (cdiv va ps + i')" by blast
        then have "i \<le> i' \<and> i' < j \<and> v = int32 (cdiv va ps + i')" by simp
        then show ?thesis by blast
      qed
    qed
    then show "e = OutOfMemory \<and> (\<exists>j. i \<le> j \<and> j < n \<and> oom_at s s' va ps i j)"
      using e j by (intro conjI exI [of _ j]) simp_all
  qed
next
  case (oom s i frames)
  have same: "frames = physical_frames s" using faa_fail_unchanged [OF assms oom(3)] .
  show ?case
  proof
    assume "allocate_pages s va ps n i = Inl (e, s')"
    then have e: "e = OutOfMemory" and s': "s' = s\<lparr>physical_frames := frames\<rparr>"
      using oom by (simp_all add: allocate_pages_fail)
    have "oom_at s s' va ps i i"
      using oom(2,3) same by (auto simp: oom_at_def s')
    then show "e = OutOfMemory \<and> (\<exists>j. i \<le> j \<and> j < n \<and> oom_at s s' va ps i j)"
      using e oom(1) by (intro conjI exI [of _ i]) simp_all
  qed
next
  case (fresh s i pfn frames s1)
  have pt: "page_table s1 = (page_table s)(int32 (cdiv va ps + i) \<mapsto> (pfn, ps))"
    using fresh(5) by simp
  show ?case
  proof
    assume a: "allocate_pages s va ps n i = Inl (e, s')"
    then have r: "allocate_pages s1 va ps n (i + 1) = Inl (e, s')"
      using allocate_pages_new [OF fresh(1-5)] by simp
    then obtain j where e: "e = OutOfMemory" and j: "i + 1 \<le> j" "j < n"
      and o: "oom_at s1 s' va ps (i + 1) j"
      using fresh(6) by blast
    have "page_table s1 (int32 (cdiv va ps + i)) \<noteq> None" by (simp add: pt)
    then have here: "page_table s' (int32 (cdiv va ps + i)) \<noteq> None"
      using map_le_present [OF allocate_pages_map_le(1) [OF r]] by blast
    have "oom_at s s' va ps i j"
      unfolding oom_at_def
    proof (intro conjI allI impI)
      show "page_table s' (int32 (cdiv va ps + j)) = None"
        and "fst (find_and_allocate_physical_frames (physical_frames s')
            (cdiv ps SMALL_PAGE_SIZE)) = - 1"
        using o by (simp_all add: oom_at_def)
    next
      fix i' assume "i \<le> i' \<and> i' < j"
      then show "page_table s' (int32 (cdiv va ps + i')) \<noteq> None"
        using o here by (cases "i' = i") (auto simp: oom_at_def)
    next
      fix v assume "page_table s' v \<noteq> None"
      then have "page_table s1 v \<noteq> None \<or>
        (\<exists>i'. i + 1 \<le> i' \<and> i' < j \<and> v = int32 (cdiv va ps + i'))"
        using o by (simp add: oom_at_def)
      then show "page_table s v \<noteq> None \<or>
        (\<exists>i'. i \<le> i' \<and> i' < j \<and> v = int32 (cdiv va ps + i'))"
      proof
        assume "page_table s1 v \<noteq> None"
        then show ?thesis using j by (cases "v = int32 (cdiv va ps + i)") (auto simp: pt)
      next
        assume "\<exists>i'. i + 1 \<le> i' \<and> i' < j \<and> v = int32 (cdiv va ps + i')"
        then obtain i' where "i + 1 \<le> i'" "i' < j" "v = int32 (cdiv va ps + i')" by blast
        then have "i \<le> i' \<and> i' < j \<and> v = int32 (cdiv va ps + i')" by simp
        then show ?thesis by blast
      qed
    qed
    then show "e = OutOfMemory \<and> (\<exists>j. i \<le> j \<and> j < n \<and> oom_at s s' va ps i j)"
      using e j by (intro conjI exI [of _ j]) simp_all
  qed
qed

lemma decide_page_size_range:
  "decide_page_size pe sz = SMALL_PAGE_SIZE \<or> decide_page_size pe sz = LARGE_PAGE_SIZE"
  by (simp add: decide_page_size_def)

lemma frames_per_page_pos: "1 \<le> cdiv (decide_page_size pe sz) SMALL_PAGE_SIZE"
  using decide_page_size_range [of pe sz]
  by (auto simp: cdiv_def SMALL_PAGE_SIZE_def LARGE_PAGE_SIZE_def)

lemma int32_sub_left: "int32 (int32 a - b) = int32 (a - b)"
  using int32_add_left [of a "- b"] by simp

lemma int32_contribution: "int32 (a + int32 (int32 x - y)) = int32 (a + (x - y))"
proof -
  have "int32 (a + int32 (int32 x - y)) = int32 (a + (int32 x - y))"
    by (rule int32_add_right)
  also have "\<dots> = int32 (int32 x + (a - y))" by (simp add: algebra_simps)
  also have "\<dots> = int32 (x + (a - y))" by (rule int32_add_left)
  finally show ?thesis by (simp add: algebra_simps)
qed

lemma allocate_unfold:
  "allocate s va sz =
     allocate_pages
       (s\<lparr>internal_fragmentation :=
            int32 (internal_fragmentation s + fragmentation_contribution (policy_engine s) va sz)\<rparr>)
       va (decide_page_size (policy_engine s) sz)
       (num_pages_needed va sz (decide_page_size (policy_engine s) sz)) 0"
  by (simp add: allocate_def Let_def fragmentation_contribution_def int32_contribution)

lemma allocate_fragmentation:
  "internal_fragmentation (after_allocate (allocate s va sz)) =
     int32 (internal_fragmentation s + fragmentation_contribution (policy_engine s) va sz)"
  unfolding allocate_unfold using allocate_pages_frame by simp

lemma allocate_frame:
  "tlb (after_allocate (allocate s va sz)) = tlb s"
  "policy_engine (after_allocate (allocate s va sz)) = policy_engine s"
  "page_table s \<subseteq>\<^sub>m page_table (after_allocate (allocate s va sz))"
  unfolding allocate_unfold
  using allocate_pages_frame [of "s\<lparr>internal_fragmentation :=
            int32 (internal_fragmentation s + fragmentation_contribution (policy_engine s) va sz)\<rparr>"]
  by simp_all

lemma free_run_blocks:
  "nat k \<le> b \<Longrightarrow> free_run (replicate a True @ replicate b False) a (nat k)"
  by (auto simp: free_run_def nth_append)

lemma faa_blocks:
  assumes "1 \<le> k" "nat k \<le> b"
  shows "find_and_allocate_physical_frames (replicate a True @ replicate b False) k
     = (int a, replicate (a + nat k) True @ replicate (b - nat k) False)"
proof -
  define fr where "fr = replicate a True @ replicate b False"
  obtain r fr' where f: "find_and_allocate_physical_frames fr k = (r, fr')"
    by (cases "find_and_allocate_physical_frames fr k")
  have run: "free_run fr a (nat k)" unfolding fr_def using assms(2) by (rule free_run_blocks)
  from find_and_allocate_cases [OF assms(1) f] run
  have r0: "0 \<le> r" and rr: "free_run fr (nat r) (nat k)"
    and least: "\<forall>p<nat r. \<not> free_run fr p (nat k)"
    and len: "length fr' = length fr"
    and nth: "\<forall>i<length fr. fr' ! i = (fr ! i \<or> (nat r \<le> i \<and> i < nat r + nat k))"
    by blast+
  have "\<not> a < nat r" using least run by blast
  moreover have "\<not> nat r < a"
  proof
    assume lt: "nat r < a"
    have k: "0 < nat k" using assms(1) by simp
    have "\<forall>j<nat k. \<not> fr ! (nat r + j)" using rr unfolding free_run_def by blast
    then have "\<not> fr ! (nat r + 0)" using k by blast
    then show False using lt by (simp add: fr_def nth_append)
  qed
  ultimately have ra: "nat r = a" by simp
  then have r: "r = int a" using r0 by simp
  have "fr' = replicate (a + nat k) True @ replicate (b - nat k) False"
  proof (rule nth_equalityI)
    show "length fr' = length (replicate (a + nat k) True @ replicate (b - nat k) False)"
      using len assms(2) by (simp add: fr_def)
  next
    fix i assume "i < length fr'"
    then have i: "i < length fr" using len by simp
    then have "fr' ! i = (fr ! i \<or> (a \<le> i \<and> i < a + nat k))" using nth ra by simp
    moreover have "fr ! i = (i < a)" using i by (auto simp: fr_def nth_append)
    moreover have "(replicate (a + nat k) True @ replicate (b - nat k) False) ! i = (i < a + nat k)"
      using i assms(2) by (auto simp: fr_def nth_append)
    ultimately show "fr' ! i = (replicate (a + nat k) True @ replicate (b - nat k) False) ! i"
      by auto
  qed
  then show ?thesis using f r by (simp add: fr_def)
qed

lemma faa_full:
  assumes "1 \<le> k"
  shows "find_and_allocate_physical_frames (replicate a True) k = (- 1, replicate a True)"
proof -
  obtain r fr' where f: "find_and_allocate_physical_frames (replicate a True) k = (r, fr')"
    by (cases "find_and_allocate_physical_frames (replicate a True) k")
  have none: "\<not> free_run (replicate a True) p (nat k)" for p
  proof
    assume rr: "free_run (replicate a True) p (nat k)"
    have k: "0 < nat k" using assms by simp
    have b: "p + nat k \<le> length (replicate a True)"
      and f: "\<forall>j<nat k. \<not> replicate a True ! (p + j)"
      using rr unfolding free_run_def by blast+
    have "\<not> replicate a True ! (p + 0)" using f k by blast
    moreover have "p < a" using b k by simp
    ultimately show False by simp
  qed
  from find_and_allocate_cases [OF assms f] none have "r = - 1" "fr' = replicate a True"
    by blast+
  then show ?thesis using f by simp
qed

lemma large_policy_size: "decide_page_size large_policy sz = LARGE_PAGE_SIZE"
  by (simp add: large_policy_def PolicyEngine_new_def decide_page_size_def)

lemma cdiv_large_small: "cdiv LARGE_PAGE_SIZE SMALL_PAGE_SIZE = 512"
  by (simp add: cdiv_def LARGE_PAGE_SIZE_def SMALL_PAGE_SIZE_def)

lemma cdiv_zero: "cdiv 0 b = 0"
  by (simp add: cdiv_def)

lemma large_fill:
  assumes "j \<le> 512"
    "physical_frames s = replicate (512 * j) True @ replicate (262144 - 512 * j) False"
    "\<forall>v. page_table s v \<noteq> None \<longrightarrow> 0 \<le> v \<and> v < int j"
    "512 < n"
  shows "\<exists>s'. allocate_pages s 0 LARGE_PAGE_SIZE n (int j) = Inl (OutOfMemory, s') \<and>
     physical_frames s' = replicate 262144 True \<and>
     (\<forall>v. page_table s' v \<noteq> None \<longrightarrow> 0 \<le> v \<and> v < 512) \<and>
     (\<forall>v. int j \<le> v \<and> v < 512 \<longrightarrow> page_table s' v = Some (512 * v, LARGE_PAGE_SIZE)) \<and>
     internal_fragmentation s' = internal_fragmentation s"
  using assms
proof (induction "512 - j" arbitrary: j s)
  case 0
  then have j: "j = 512" by simp
  have vpn: "int32 (cdiv 0 LARGE_PAGE_SIZE + int j) = 512" by (simp add: cdiv_zero j int32_def)
  have absent: "page_table s (int32 (cdiv 0 LARGE_PAGE_SIZE + int j)) = None"
    unfolding vpn using "0.prems"(3) j by fastforce
  have fr: "physical_frames s = replicate 262144 True" using "0.prems"(2) j by simp
  have f: "find_and_allocate_physical_frames (physical_frames s)
      (cdiv LARGE_PAGE_SIZE SMALL_PAGE_SIZE) = (- 1, replicate 262144 True)"
    unfolding fr cdiv_large_small by (rule faa_full) simp
  have lt: "int j < n" using "0.prems"(4) j by simp
  have "allocate_pages s 0 LARGE_PAGE_SIZE n (int j)
      = Inl (OutOfMemory, s\<lparr>physical_frames := replicate 262144 True\<rparr>)"
    by (rule allocate_pages_fail [OF lt absent f])
  then show ?case using "0.prems"(3) j by auto
next
  case (Suc m)
  then have j: "j < 512" and m: "m = 512 - Suc j" by linarith+
  have vpn: "int32 (cdiv 0 LARGE_PAGE_SIZE + int j) = int j"
    using j by (simp add: cdiv_zero int32_id)
  have absent: "page_table s (int32 (cdiv 0 LARGE_PAGE_SIZE + int j)) = None"
    unfolding vpn using Suc.prems(3) by fastforce
  have b: "nat 512 \<le> 262144 - 512 * j" using j by simp
  have f: "find_and_allocate_physical_frames (physical_frames s)
      (cdiv LARGE_PAGE_SIZE SMALL_PAGE_SIZE)
      = (int (512 * j), replicate (512 * j + nat 512) True @ replicate (262144 - 512 * j - nat 512) False)"
    unfolding Suc.prems(2) cdiv_large_small by (rule faa_blocks [OF _ b]) simp
  define s1 where "s1 = s\<lparr>physical_frames :=
        replicate (512 * j + nat 512) True @ replicate (262144 - 512 * j - nat 512) False,
      page_table := (page_table s)(int32 (cdiv 0 LARGE_PAGE_SIZE + int j)
         \<mapsto> (int (512 * j), LARGE_PAGE_SIZE))\<rparr>"
  have lt: "int j < n" using Suc.prems(4) j by simp
  have ne: "int (512 * j) \<noteq> - 1" by simp
  have step: "allocate_pages s 0 LARGE_PAGE_SIZE n (int j)
      = allocate_pages s1 0 LARGE_PAGE_SIZE n (int j + 1)"
    by (rule allocate_pages_new [OF lt absent f ne s1_def])
  have pt1: "page_table s1 = (page_table s)(int j \<mapsto> (int (512 * j), LARGE_PAGE_SIZE))"
    by (simp add: s1_def vpn)
  have fr1: "physical_frames s1
      = replicate (512 * Suc j) True @ replicate (262144 - 512 * Suc j) False"
    by (simp add: s1_def)
  have dom1: "\<forall>v. page_table s1 v \<noteq> None \<longrightarrow> 0 \<le> v \<and> v < int (Suc j)"
  proof (intro allI impI)
    fix v assume a: "page_table s1 v \<noteq> None"
    show "0 \<le> v \<and> v < int (Suc j)"
    proof (cases "v = int j")
      case True
      then show ?thesis by simp
    next
      case False
      then have "page_table s v \<noteq> None" using a by (simp add: pt1)
      then have "0 \<le> v \<and> v < int j" using Suc.prems(3) by blast
      then show ?thesis by simp
    qed
  qed
  have "Suc j \<le> 512" using j by simp
  from Suc.hyps(1) [OF m this fr1 dom1 Suc.prems(4)]
  obtain s' where r: "allocate_pages s1 0 LARGE_PAGE_SIZE n (int (Suc j)) = Inl (OutOfMemory, s')"
    and fr': "physical_frames s' = replicate 262144 True"
    and dom': "\<forall>v. page_table s' v \<noteq> None \<longrightarrow> 0 \<le> v \<and> v < 512"
    and new': "\<forall>v. int (Suc j) \<le> v \<and> v < 512 \<longrightarrow> page_table s' v = Some (512 * v, LARGE_PAGE_SIZE)"
    and frag': "internal_fragmentation s' = internal_fragmentation s1"
    by blast
  have "page_table s1 \<subseteq>\<^sub>m page_table s'" using allocate_pages_map_le(1) [OF r] .
  moreover have "page_table s1 (int j) = Some (512 * int j, LARGE_PAGE_SIZE)" by (simp add: pt1)
  ultimately have here: "page_table s' (int j) = Some (512 * int j, LARGE_PAGE_SIZE)"
    by (metis domI map_le_def)
  have new: "\<forall>v. int j \<le> v \<and> v < 512 \<longrightarrow> page_table s' v = Some (512 * v, LARGE_PAGE_SIZE)"
  proof (intro allI impI)
    fix v assume v: "int j \<le> v \<and> v < 512"
    show "page_table s' v = Some (512 * v, LARGE_PAGE_SIZE)"
    proof (cases "v = int j")
      case True
      then show ?thesis using here by simp
    next
      case False
      then have "int (Suc j) \<le> v \<and> v < 512" using v by simp
      then show ?thesis using new' by blast
    qed
  qed
  have "allocate_pages s 0 LARGE_PAGE_SIZE n (int j) = Inl (OutOfMemory, s')"
    using step r by (simp add: add.commute)
  moreover have "internal_fragmentation s' = internal_fragmentation s"
    using frag' by (simp add: s1_def)
  ultimately show ?case using fr' dom' new by blast
qed

lemma num_pages_exhaust: "num_pages_needed 0 1073741825 LARGE_PAGE_SIZE = 513"
  by (simp add: num_pages_needed_def last_vpn_def first_vpn_def int32_def cdiv_def
      LARGE_PAGE_SIZE_def)

lemma contribution_exhaust: "fragmentation_contribution large_policy 0 1073741825 = 2097151"
  by (simp add: fragmentation_contribution_def large_policy_size num_pages_exhaust)
     (simp add: LARGE_PAGE_SIZE_def)

lemma MMU_new_fields:
  "physical_frames (MMU_new pe) = replicate 262144 False"
  "page_table (MMU_new pe) = Map.empty"
  "policy_engine (MMU_new pe) = pe"
  "internal_fragmentation (MMU_new pe) = 0"
  "tlb (MMU_new pe) = TLB_new TLB_SIZE"
  by (simp_all add: MMU_new_def PHYSICAL_MEMORY_SIZE_def SMALL_PAGE_SIZE_def)

lemma allocate_large_exhaust:
  "\<exists>s'. allocate (MMU_new large_policy) 0 1073741825 = Inl (OutOfMemory, s') \<and>
     internal_fragmentation s' = 2097151 \<and>
     physical_frames s' = replicate 262144 True \<and>
     (\<forall>v. page_table s' v \<noteq> None \<longrightarrow> 0 \<le> v \<and> v < 512) \<and>
     (\<forall>v. 0 \<le> v \<and> v < 512 \<longrightarrow> page_table s' v = Some (512 * v, LARGE_PAGE_SIZE))"
proof -
  define s1 where "s1 = (MMU_new large_policy)\<lparr>internal_fragmentation :=
      int32 (internal_fragmentation (MMU_new large_policy)
             + fragmentation_contribution (policy_engine (MMU_new large_policy)) 0 1073741825)\<rparr>"
  have u: "allocate (MMU_new large_policy) 0 1073741825
      = allocate_pages s1 0 LARGE_PAGE_SIZE 513 (int 0)"
    by (simp add: allocate_unfold s1_def MMU_new_fields large_policy_size num_pages_exhaust)
  have fr: "physical_frames s1 = replicate (512 * 0) True @ replicate (262144 - 512 * 0) False"
    by (simp add: s1_def MMU_new_fields)
  have pt: "\<forall>v. page_table s1 v \<noteq> None \<longrightarrow> 0 \<le> v \<and> v < int 0"
    by (simp add: s1_def MMU_new_fields)
  have fg: "internal_fragmentation s1 = 2097151"
    by (simp add: s1_def MMU_new_fields contribution_exhaust int32_def)
  from large_fill [OF _ fr pt, of 513] u fg show ?thesis by auto
qed

lemma num_pages_one: "num_pages_needed 0 1 LARGE_PAGE_SIZE = 1"
  by (simp add: num_pages_needed_def last_vpn_def first_vpn_def int32_def cdiv_def)

lemma contribution_one: "fragmentation_contribution large_policy 0 1 = 2097151"
  by (simp add: fragmentation_contribution_def large_policy_size num_pages_one)
     (simp add: LARGE_PAGE_SIZE_def)

lemma allocate_one_again:
  assumes "page_table s 0 \<noteq> None" "policy_engine s = large_policy"
  shows "allocate s 0 1
     = Inr (s\<lparr>internal_fragmentation := int32 (internal_fragmentation s + 2097151)\<rparr>)"
proof -
  define s1 where "s1 = s\<lparr>internal_fragmentation := int32 (internal_fragmentation s + 2097151)\<rparr>"
  have u: "allocate s 0 1 = allocate_pages s1 0 LARGE_PAGE_SIZE 1 0"
    by (simp add: allocate_unfold s1_def assms(2) large_policy_size num_pages_one contribution_one)
  have p: "page_table s1 (int32 (cdiv 0 LARGE_PAGE_SIZE + 0)) \<noteq> None"
    using assms(1) by (simp add: s1_def cdiv_zero int32_def)
  have "allocate_pages s1 0 LARGE_PAGE_SIZE 1 0 = allocate_pages s1 0 LARGE_PAGE_SIZE 1 (0 + 1)"
    by (rule allocate_pages_skip [OF _ p]) simp
  also have "\<dots> = Inr s1" by (simp add: allocate_pages_done)
  finally show ?thesis using u by (simp add: s1_def)
qed

lemma allocate_one_first:
  "\<exists>s'. allocate (MMU_new large_policy) 0 1 = Inr s' \<and> page_table s' 0 \<noteq> None \<and>
     policy_engine s' = large_policy \<and> internal_fragmentation s' = 2097151"
proof -
  define s1 where "s1 = (MMU_new large_policy)\<lparr>internal_fragmentation := 2097151\<rparr>"
  have u: "allocate (MMU_new large_policy) 0 1 = allocate_pages s1 0 LARGE_PAGE_SIZE 1 0"
    by (simp add: allocate_unfold s1_def MMU_new_fields large_policy_size num_pages_one
        contribution_one int32_def)
  have absent: "page_table s1 (int32 (cdiv 0 LARGE_PAGE_SIZE + 0)) = None"
    by (simp add: s1_def MMU_new_fields)
  have "find_and_allocate_physical_frames (replicate 0 True @ replicate 262144 False) 512
      = (int 0, replicate (0 + nat 512) True @ replicate (262144 - nat 512) False)"
    by (rule faa_blocks) simp_all
  then have f: "find_and_allocate_physical_frames (physical_frames s1)
      (cdiv LARGE_PAGE_SIZE SMALL_PAGE_SIZE)
      = (0, replicate 512 True @ replicate 261632 False)"
    by (simp add: s1_def MMU_new_fields cdiv_large_small)
  define s2 where "s2 = s1\<lparr>physical_frames := replicate 512 True @ replicate 261632 False,
      page_table := (page_table s1)(int32 (cdiv 0 LARGE_PAGE_SIZE + 0) \<mapsto> (0, LARGE_PAGE_SIZE))\<rparr>"
  have "allocate_pages s1 0 LARGE_PAGE_SIZE 1 0 = allocate_pages s2 0 LARGE_PAGE_SIZE 1 (0 + 1)"
    by (rule allocate_pages_new [OF _ absent f _ s2_def]) simp_all
  also have "\<dots> = Inr s2" by (simp add: allocate_pages_done)
  finally have "allocate (MMU_new large_policy) 0 1 = Inr s2" using u by simp
  moreover have "page_table s2 0 \<noteq> None" by (simp add: s2_def cdiv_zero int32_def)
  moreover have "policy_engine s2 = large_policy" "internal_fragmentation s2 = 2097151"
    by (simp_all add: s2_def s1_def MMU_new_fields)
  ultimately show ?thesis by blast
qed

lemma allocation_phase_repeat:
  assumes "page_table s 0 \<noteq> None" "policy_engine s = large_policy"
    "int32 (internal_fragmentation s) = internal_fragmentation s"
  shows "\<exists>s'. allocation_phase s (replicate n (0, 1)) = Inr s' \<and>
     internal_fragmentation s' = int32 (internal_fragmentation s + int n * 2097151)"
  using assms
proof (induction n arbitrary: s)
  case 0
  then show ?case by simp
next
  case (Suc n)
  define s1 where "s1 = s\<lparr>internal_fragmentation := int32 (internal_fragmentation s + 2097151)\<rparr>"
  have a: "allocate s 0 1 = Inr s1"
    unfolding s1_def by (rule allocate_one_again [OF Suc.prems(1,2)])
  have "\<exists>s'. allocation_phase s1 (replicate n (0, 1)) = Inr s' \<and>
     internal_fragmentation s' = int32 (internal_fragmentation s1 + int n * 2097151)"
    by (rule Suc.IH) (simp_all add: s1_def Suc.prems int32_idem)
  then obtain s' where r: "allocation_phase s1 (replicate n (0, 1)) = Inr s'"
    and f: "internal_fragmentation s' = int32 (internal_fragmentation s1 + int n * 2097151)"
    by blast
  have "internal_fragmentation s' = int32 (internal_fragmentation s + int (Suc n) * 2097151)"
  proof -
    have "int32 (internal_fragmentation s1 + int n * 2097151)
        = int32 (internal_fragmentation s + 2097151 + int n * 2097151)"
      unfolding s1_def by (simp add: int32_add_left)
    then show ?thesis unfolding f by (simp add: algebra_simps)
  qed
  then show ?case using a r by simp
qed

lemma resolve_vpn_Some:
  "resolve_vpn s a = Some v \<Longrightarrow>
     (\<exists>f. page_table s v = Some (f, LARGE_PAGE_SIZE) \<and> v = cdiv a LARGE_PAGE_SIZE) \<or>
     (\<exists>f. page_table s v = Some (f, SMALL_PAGE_SIZE) \<and> v = cdiv a SMALL_PAGE_SIZE)"
  by (auto simp: resolve_vpn_def Let_def split: if_splits option.splits)

lemma index_pt_present: "pt k = Some e \<Longrightarrow> index_pt pt k = (e, pt)"
  by (simp add: index_pt_def)

lemma translate_frame:
  "page_table (after_translate (translate s a)) = page_table s \<and>
   policy_engine (after_translate (translate s a)) = policy_engine s \<and>
   physical_frames (after_translate (translate s a)) = physical_frames s \<and>
   internal_fragmentation (after_translate (translate s a)) = internal_fragmentation s"
proof (cases "resolve_vpn s a")
  case None
  then show ?thesis by (simp add: translate_def after_translate_def)
next
  case (Some v)
  then obtain e where e: "page_table s v = Some e" using resolve_vpn_Some [OF Some] by blast
  show ?thesis
    using Some index_pt_present [of "page_table s" v e, OF e]
    by (auto simp: translate_def after_translate_def Let_def split_def split: sum.splits)
qed

lemma mmu_step_map_le: "page_table s \<subseteq>\<^sub>m page_table (mmu_step s x)"
proof (cases x)
  case (Allocate va sz)
  then show ?thesis using allocate_frame(3) [of s va sz] by simp
next
  case (Translate a)
  then show ?thesis using translate_frame [of s a] by simp
qed

lemma mmu_run_map_le: "page_table s \<subseteq>\<^sub>m page_table (mmu_run s xs)"
proof (induction xs arbitrary: s)
  case Nil
  then show ?case by simp
next
  case (Cons x xs)
  have "page_table s \<subseteq>\<^sub>m page_table (mmu_step s x)" by (rule mmu_step_map_le)
  moreover have "page_table (mmu_step s x) \<subseteq>\<^sub>m page_table (mmu_run (mmu_step s x) xs)"
    by (rule Cons.IH)
  ultimately show ?case using map_le_trans by auto
qed

lemma map_le_Some: "m \<subseteq>\<^sub>m m' \<Longrightarrow> m k = Some e \<Longrightarrow> m' k = Some e"
  by (metis domI map_le_def)

lemma allocate_pages_all_present:
  "(\<forall>i'. i \<le> i' \<and> i' < n \<longrightarrow> page_table s (int32 (cdiv va ps + i')) \<noteq> None) \<Longrightarrow>
     allocate_pages s va ps n i = Inr s"
proof (induction "nat (n - i)" arbitrary: i)
  case 0
  then show ?case by (simp add: allocate_pages_done)
next
  case (Suc m)
  then have lt: "i < n" and m: "m = nat (n - (i + 1))" by linarith+
  have "page_table s (int32 (cdiv va ps + i)) \<noteq> None" using Suc.prems lt by simp
  then have "allocate_pages s va ps n i = allocate_pages s va ps n (i + 1)"
    using lt by (simp add: allocate_pages_skip)
  also have "\<dots> = Inr s" using Suc.hyps(1) [OF m] Suc.prems by simp
  finally show ?case .
qed

lemma map_of_insert_od: "map_of (map_od (insert_od d k v)) = (map_of (map_od d))(k \<mapsto> v)"
  by (simp add: insert_od_def Let_def AList.update_conv')

lemma map_of_erase: "map_of (map_od (erase d k)) = (map_of (map_od d))(k := None)"
  by (auto simp: erase_def AList.delete_conv')

lemma map_of_move: "map_of (map_od (move_to_end d k)) = map_of (map_od d)"
  by (simp add: move_to_end_def)

lemma lookup_map: "map_of (map_od (cache (snd (lookup t v)))) = map_of (map_od (cache t))"
  by (simp add: lookup_cache map_of_move)

lemma lookup_value:
  "fst (lookup t v) = (case map_of (map_od (cache t)) v of None \<Rightarrow> - 1 | Some f \<Rightarrow> f)"
  by (auto simp: lookup_def contains_def Let_def split_def index_od_def map_of_move
      split: option.splits)

lemma lookup_inv:
  "od_inv (cache t) \<Longrightarrow> od_inv (cache (snd (lookup t v)))"
  "size_tlb (snd (lookup t v)) = size_tlb t"
  by (simp_all add: lookup_cache od_inv_move lookup_size_tlb)

lemma insert_tlb_map:
  assumes "insert_tlb t v f = Inr t'"
  shows "map_of (map_od (cache t')) v = Some f"
    and "map_of (map_od (cache t')) k = Some x \<Longrightarrow> k \<noteq> v \<Longrightarrow> map_of (map_od (cache t)) k = Some x"
proof -
  have "\<exists>d. cache t' = insert_od d v f \<and>
      (\<forall>k x. map_of (map_od d) k = Some x \<longrightarrow> map_of (map_od (cache t)) k = Some x)"
    using assms
    by (auto simp: insert_tlb_def map_of_erase split: if_splits list.splits)
  then obtain d where c: "cache t' = insert_od d v f"
    and d: "\<forall>k x. map_of (map_od d) k = Some x \<longrightarrow> map_of (map_od (cache t)) k = Some x"
    by blast
  show "map_of (map_od (cache t')) v = Some f" by (simp add: c map_of_insert_od)
  show "map_of (map_od (cache t)) k = Some x"
    if "map_of (map_od (cache t')) k = Some x" "k \<noteq> v"
    using that d by (simp add: c map_of_insert_od)
qed

lemma translate_resolved:
  assumes "resolve_vpn s a = Some v" "page_table s v = Some (f, sz)" "mmu_inv s"
  shows "\<exists>s'. translate s a = Inr (f, s') \<and> mmu_inv s' \<and> page_table s' = page_table s \<and>
     map_of (map_od (cache (tlb s'))) v = Some f"
proof -
  define t1 where "t1 = snd (lookup (tlb s) v)"
  have inv: "od_inv (cache (tlb s))" and cap: "1 \<le> size_tlb (tlb s)"
    and con: "tlb_consistent (tlb s) (page_table s)"
    using assms(3) by (simp_all add: mmu_inv_def)
  have inv1: "od_inv (cache t1)" and cap1: "1 \<le> size_tlb t1"
    using inv cap by (simp_all add: t1_def lookup_inv)
  have map1: "map_of (map_od (cache t1)) = map_of (map_od (cache (tlb s)))"
    by (simp add: t1_def lookup_map)
  have lk: "lookup (tlb s) v = (fst (lookup (tlb s) v), t1)" by (simp add: t1_def)
  show ?thesis
  proof (cases "fst (lookup (tlb s) v) = - 1")
    case True
    obtain t2 where i: "insert_tlb t1 v f = Inr t2"
      using insert_tlb_defined [OF inv1 cap1] by blast
    have tr: "translate s a = Inr (f, s\<lparr>tlb := t2, page_table := page_table s\<rparr>)"
      using assms(1,2) True i lk
      by (simp add: translate_def index_pt_def split_def t1_def)
    have "tlb_consistent t2 (page_table s)"
      unfolding tlb_consistent_def
    proof (intro allI impI)
      fix k x assume kx: "map_of (map_od (cache t2)) k = Some x"
      show "\<exists>sz. page_table s k = Some (x, sz)"
      proof (cases "k = v")
        case True
        then have "x = f" using insert_tlb_map(1) [OF i] kx by simp
        then show ?thesis using assms(2) True by simp
      next
        case False
        then have "map_of (map_od (cache (tlb s))) k = Some x"
          using insert_tlb_map(2) [OF i kx] map1 by simp
        then show ?thesis using con by (simp add: tlb_consistent_def)
      qed
    qed
    then have "mmu_inv (s\<lparr>tlb := t2, page_table := page_table s\<rparr>)"
      using insert_tlb_inv [OF i inv1] insert_tlb_size_tlb [OF i] cap1
      by (simp add: mmu_inv_def)
    then show ?thesis using tr insert_tlb_map(1) [OF i] by auto
  next
    case False
    then obtain x where x: "map_of (map_od (cache (tlb s))) v = Some x"
      and fx: "fst (lookup (tlb s) v) = x"
      by (auto simp: lookup_value split: option.splits)
    have "\<exists>sz'. page_table s v = Some (x, sz')"
      using con x unfolding tlb_consistent_def by blast
    then have "x = f" using assms(2) by auto
    then have tr: "translate s a = Inr (f, s\<lparr>tlb := t1\<rparr>)"
      using assms(1) False fx lk by (simp add: translate_def split_def t1_def)
    have "mmu_inv (s\<lparr>tlb := t1\<rparr>)"
      using inv1 cap1 con map1 by (simp add: mmu_inv_def tlb_consistent_def)
    then show ?thesis using tr x \<open>x = f\<close> map1 by auto
  qed
qed

lemma translate_inv: "mmu_inv s \<Longrightarrow> mmu_inv (after_translate (translate s a))"
proof (cases "resolve_vpn s a")
  case None
  assume "mmu_inv s"
  then show ?thesis using None by (simp add: translate_def after_translate_def)
next
  case (Some v)
  assume i: "mmu_inv s"
  obtain f sz where e: "page_table s v = Some (f, sz)"
    using resolve_vpn_Some [OF Some] by blast
  from translate_resolved [OF Some e i] show ?thesis by (auto simp: after_translate_def)
qed

lemma tlb_consistent_mono: "tlb_consistent t pt \<Longrightarrow> pt \<subseteq>\<^sub>m pt' \<Longrightarrow> tlb_consistent t pt'"
  unfolding tlb_consistent_def by (meson map_le_Some)

lemma allocate_inv: "mmu_inv s \<Longrightarrow> mmu_inv (after_allocate (allocate s va sz))"
  using allocate_frame [of s va sz] tlb_consistent_mono
  by (auto simp: mmu_inv_def)

lemma mmu_step_inv: "mmu_inv s \<Longrightarrow> mmu_inv (mmu_step s x)"
  by (cases x) (simp_all add: allocate_inv translate_inv)

lemma mmu_run_inv: "mmu_inv s \<Longrightarrow> mmu_inv (mmu_run s xs)"
  by (induction xs arbitrary: s) (simp_all add: mmu_step_inv)

lemma mmu_inv_new: "mmu_inv (MMU_new pe)"
  by (simp add: mmu_inv_def MMU_new_def TLB_new_def TLB_SIZE_def od_inv_def tlb_consistent_def
      OrderedDict_new_def)

lemma cdiv_pos: "0 < p \<Longrightarrow> cdiv a p = (if 0 \<le> a then a div p else - ((- a) div p))"
  by (cases "a = 0") (auto simp: cdiv_def sgn_if)

lemma cdiv_mono: "0 < p \<Longrightarrow> a \<le> b \<Longrightarrow> cdiv a p \<le> cdiv b p"
proof -
  assume p: "0 < p" and ab: "a \<le> b"
  consider "0 \<le> a" | "a < 0" "0 \<le> b" | "b < 0" using ab by linarith
  then show ?thesis
  proof cases
    case 1
    then show ?thesis using p ab by (simp add: cdiv_pos zdiv_mono1)
  next
    case 2
    have "0 \<le> (- a) div p" using 2 p by (simp add: pos_imp_zdiv_nonneg_iff)
    moreover have "0 \<le> b div p" using 2 p by (simp add: pos_imp_zdiv_nonneg_iff)
    ultimately show ?thesis using 2 p by (simp add: cdiv_pos)
  next
    case 3
    have "(- b) div p \<le> (- a) div p" using ab p by (intro zdiv_mono1) simp_all
    then show ?thesis using 3 ab p by (simp add: cdiv_pos)
  qed
qed

lemma cdiv_bounds:
  assumes "in_int a" "p = SMALL_PAGE_SIZE \<or> p = LARGE_PAGE_SIZE"
  shows "- 524288 \<le> cdiv a p \<and> cdiv a p \<le> 524288"
proof -
  have p: "0 < p" "4096 \<le> p" using assms(2) by (auto simp: SMALL_PAGE_SIZE_def LARGE_PAGE_SIZE_def)
  have a: "- 2147483648 \<le> a" "a \<le> 2147483648"
    using assms(1) by (simp_all add: in_int_def INT_MIN_def INT_MAX_def)
  have up: "x div p \<le> 524288" if "0 \<le> x" "x \<le> 2147483648" for x
  proof -
    have "x div p \<le> x div 4096" using that p by (intro zdiv_mono2) simp_all
    also have "\<dots> \<le> 2147483648 div 4096" using that by (intro zdiv_mono1) simp_all
    finally show ?thesis by simp
  qed
  show ?thesis
  proof (cases "0 \<le> a")
    case True
    have "0 \<le> a div p" using True p by (simp add: pos_imp_zdiv_nonneg_iff)
    then show ?thesis using True p up [of a] a by (simp add: cdiv_pos)
  next
    case False
    have "0 \<le> (- a) div p" using False p by (simp add: pos_imp_zdiv_nonneg_iff)
    then show ?thesis using False p up [of "- a"] a by (simp add: cdiv_pos)
  qed
qed

lemma allocate_pages_entries:
  "\<forall>v e. page_table (after_allocate (allocate_pages s va ps n i)) v = Some e \<longrightarrow>
     page_table s v = Some e \<or> snd e = ps"
proof (induction s i rule: allocate_pages_cases [where n = n and va = va and ps = ps])
  case (finished s i)
  then show ?case by (simp add: allocate_pages_done after_allocate_def)
next
  case (present s i)
  then show ?case by (simp add: allocate_pages_skip)
next
  case (oom s i frames)
  then show ?case by (simp add: allocate_pages_fail after_allocate_def)
next
  case (fresh s i pfn frames s1)
  have pt: "page_table s1 = (page_table s)(int32 (cdiv va ps + i) \<mapsto> (pfn, ps))"
    using fresh(5) by simp
  show ?case
    unfolding allocate_pages_new [OF fresh(1-5)]
  proof (intro allI impI)
    fix v e
    assume "page_table (after_allocate (allocate_pages s1 va ps n (i + 1))) v = Some e"
    then have "page_table s1 v = Some e \<or> snd e = ps" using fresh(6) by blast
    then show "page_table s v = Some e \<or> snd e = ps"
      by (cases "v = int32 (cdiv va ps + i)") (auto simp: pt)
  qed
qed

lemma allocate_pages_Inr:
  "allocate_pages s va ps n i = Inr s' \<longrightarrow>
     (\<forall>i'. i \<le> i' \<and> i' < n \<longrightarrow> page_table s' (int32 (cdiv va ps + i')) \<noteq> None)"
proof (induction s i rule: allocate_pages_cases [where n = n and va = va and ps = ps])
  case (finished s i)
  then show ?case by auto
next
  case (present s i)
  show ?case
  proof (intro impI allI)
    fix i' assume r: "allocate_pages s va ps n i = Inr s'" and i': "i \<le> i' \<and> i' < n"
    have r1: "allocate_pages s va ps n (i + 1) = Inr s'"
      using r present(1,2) by (simp add: allocate_pages_skip)
    show "page_table s' (int32 (cdiv va ps + i')) \<noteq> None"
    proof (cases "i' = i")
      case True
      then show ?thesis
        using map_le_present [OF allocate_pages_map_le(2) [OF r1] present(2)] by simp
    next
      case False
      then have "i + 1 \<le> i' \<and> i' < n" using i' by simp
      then show ?thesis using present(3) r1 by blast
    qed
  qed
next
  case (oom s i frames)
  then show ?case by (simp add: allocate_pages_fail)
next
  case (fresh s i pfn frames s1)
  have pt: "page_table s1 (int32 (cdiv va ps + i)) \<noteq> None" using fresh(5) by simp
  show ?case
  proof (intro impI allI)
    fix i' assume r: "allocate_pages s va ps n i = Inr s'" and i': "i \<le> i' \<and> i' < n"
    have r1: "allocate_pages s1 va ps n (i + 1) = Inr s'"
      using r allocate_pages_new [OF fresh(1-5)] by simp
    show "page_table s' (int32 (cdiv va ps + i')) \<noteq> None"
    proof (cases "i' = i")
      case True
      then show ?thesis
        using map_le_present [OF allocate_pages_map_le(2) [OF r1] pt] by simp
    next
      case False
      then have "i + 1 \<le> i' \<and> i' < n" using i' by simp
      then show ?thesis using fresh(6) r1 by blast
    qed
  qed
qed

lemma allocate_success_covers:
  assumes "allocate s va sz = Inr s1" "in_int va"
    "va \<le> a" "a \<le> va + sz - 1" "va + sz - 1 \<le> INT_MAX"
  shows "\<exists>e. page_table s1 (cdiv a (decide_page_size (policy_engine s) sz)) = Some e \<and>
     (page_table s (cdiv a (decide_page_size (policy_engine s) sz)) = Some e \<or>
      snd e = decide_page_size (policy_engine s) sz)"
proof -
  define ps where "ps = decide_page_size (policy_engine s) sz"
  have psr: "ps = SMALL_PAGE_SIZE \<or> ps = LARGE_PAGE_SIZE"
    unfolding ps_def by (rule decide_page_size_range)
  then have p0: "0 < ps" by (auto simp: SMALL_PAGE_SIZE_def LARGE_PAGE_SIZE_def)
  have in_last: "in_int (va + sz - 1)"
    using assms(2-5) by (simp add: in_int_def INT_MIN_def INT_MAX_def)
  have in_a: "in_int a"
    using assms(2-5) by (simp add: in_int_def INT_MIN_def INT_MAX_def)
  have w: "int32 (int32 (va + sz) - 1) = va + sz - 1"
    using in_last by (simp add: int32_sub_left int32_id in_int_def INT_MIN_def INT_MAX_def)
  define first where "first = cdiv va ps"
  define last where "last = cdiv (va + sz - 1) ps"
  have fb: "- 524288 \<le> first \<and> first \<le> 524288" unfolding first_def
    by (rule cdiv_bounds [OF assms(2) psr])
  have lb: "- 524288 \<le> last \<and> last \<le> 524288" unfolding last_def
    by (rule cdiv_bounds [OF in_last psr])
  have n: "num_pages_needed va sz ps = last - first + 1"
    using fb lb by (simp add: num_pages_needed_def last_vpn_def first_vpn_def w first_def last_def
        int32_id)
  have lo: "first \<le> cdiv a ps" unfolding first_def by (rule cdiv_mono [OF p0 assms(3)])
  have hi: "cdiv a ps \<le> last" unfolding last_def by (rule cdiv_mono [OF p0 assms(4)])
  define i where "i = cdiv a ps - first"
  have i: "0 \<le> i \<and> i < last - first + 1" using lo hi by (simp add: i_def)
  have vpn: "int32 (cdiv va ps + i) = cdiv a ps"
    using fb lb lo hi by (simp add: i_def first_def [symmetric] int32_id)
  define s0 where "s0 = s\<lparr>internal_fragmentation :=
      int32 (internal_fragmentation s + fragmentation_contribution (policy_engine s) va sz)\<rparr>"
  have r: "allocate_pages s0 va ps (last - first + 1) 0 = Inr s1"
    using assms(1) n by (simp add: allocate_unfold s0_def ps_def)
  have "page_table s1 (int32 (cdiv va ps + i)) \<noteq> None"
    using allocate_pages_Inr [of s0 va ps "last - first + 1" 0 s1] r i by blast
  then obtain e where e: "page_table s1 (cdiv a ps) = Some e" using vpn by auto
  have "\<forall>v e. page_table s1 v = Some e \<longrightarrow> page_table s0 v = Some e \<or> snd e = ps"
    using allocate_pages_entries [of s0 va ps "last - first + 1" 0]
    unfolding r by (simp only: after_allocate_def sum.case)
  then have "page_table s0 (cdiv a ps) = Some e \<or> snd e = ps"
    using e by blast
  then show ?thesis using e by (simp add: s0_def ps_def)
qed

lemma decide_static: "mode pe \<noteq> ''dynamic'' \<Longrightarrow> decide_page_size pe sz = decide_page_size pe 0"
  by (simp add: decide_page_size_def)

lemma allocate_entries:
  assumes "page_table (after_allocate (allocate s va sz)) v = Some e"
  shows "page_table s v = Some e \<or> snd e = decide_page_size (policy_engine s) sz"
proof -
  define s0 where "s0 = s\<lparr>internal_fragmentation :=
      int32 (internal_fragmentation s + fragmentation_contribution (policy_engine s) va sz)\<rparr>"
  have "\<forall>v e. page_table (after_allocate (allocate_pages s0 va
        (decide_page_size (policy_engine s) sz)
        (num_pages_needed va sz (decide_page_size (policy_engine s) sz)) 0)) v = Some e \<longrightarrow>
     page_table s0 v = Some e \<or> snd e = decide_page_size (policy_engine s) sz"
    by (rule allocate_pages_entries)
  moreover have "page_table (after_allocate (allocate_pages s0 va
        (decide_page_size (policy_engine s) sz)
        (num_pages_needed va sz (decide_page_size (policy_engine s) sz)) 0)) v = Some e"
    using assms unfolding allocate_unfold s0_def .
  ultimately have "page_table s0 v = Some e \<or> snd e = decide_page_size (policy_engine s) sz"
    by blast
  then show ?thesis by (simp add: s0_def)
qed

lemma mmu_step_policy: "policy_engine (mmu_step s x) = policy_engine s"
  by (cases x) (simp_all add: allocate_frame translate_frame)

lemma mmu_run_policy: "policy_engine (mmu_run s xs) = policy_engine s"
  by (induction xs arbitrary: s) (simp_all add: mmu_step_policy)

lemma mmu_step_uniform:
  assumes "mode (policy_engine s) \<noteq> ''dynamic''"
    "\<forall>v e. page_table s v = Some e \<longrightarrow> snd e = decide_page_size (policy_engine s) 0"
  shows "\<forall>v e. page_table (mmu_step s x) v = Some e \<longrightarrow>
     snd e = decide_page_size (policy_engine s) 0"
proof (cases x)
  case (Allocate va sz)
  show ?thesis
  proof (intro allI impI)
    fix v e assume "page_table (mmu_step s x) v = Some e"
    then have "page_table s v = Some e \<or> snd e = decide_page_size (policy_engine s) sz"
      using Allocate allocate_entries by simp
    then show "snd e = decide_page_size (policy_engine s) 0"
      using assms(2) decide_static [OF assms(1), of sz] by metis
  qed
next
  case (Translate a)
  then show ?thesis using assms(2) translate_frame [of s a] by simp
qed

lemma mmu_run_uniform:
  assumes "mode (policy_engine s) \<noteq> ''dynamic''"
    "\<forall>v e. page_table s v = Some e \<longrightarrow> snd e = decide_page_size (policy_engine s) 0"
  shows "\<forall>v e. page_table (mmu_run s xs) v = Some e \<longrightarrow>
     snd e = decide_page_size (policy_engine s) 0"
  using assms
proof (induction xs arbitrary: s)
  case Nil
  then show ?case by simp
next
  case (Cons x xs)
  have "\<forall>v e. page_table (mmu_run (mmu_step s x) xs) v = Some e \<longrightarrow>
     snd e = decide_page_size (policy_engine (mmu_step s x)) 0"
    by (rule Cons.IH)
       (use Cons.prems mmu_step_uniform [OF Cons.prems] in \<open>simp_all add: mmu_step_policy\<close>)
  then show ?case by (simp add: mmu_step_policy)
qed

lemma resolve_vpn_total:
  assumes "page_table s (cdiv a ps) = Some (f, ps)"
    "ps = SMALL_PAGE_SIZE \<or> ps = LARGE_PAGE_SIZE"
  shows "\<exists>v f' sz. resolve_vpn s a = Some v \<and> page_table s v = Some (f', sz) \<and> v = cdiv a sz"
proof (cases "case page_table s (cdiv a LARGE_PAGE_SIZE) of None \<Rightarrow> False
                | Some (frame, sz) \<Rightarrow> sz = LARGE_PAGE_SIZE")
  case True
  then obtain f' where "page_table s (cdiv a LARGE_PAGE_SIZE) = Some (f', LARGE_PAGE_SIZE)"
    by (auto split: option.splits)
  moreover have "resolve_vpn s a = Some (cdiv a LARGE_PAGE_SIZE)"
    using True by (simp add: resolve_vpn_def Let_def)
  ultimately show ?thesis by blast
next
  case False
  then have "ps \<noteq> LARGE_PAGE_SIZE" using assms(1) by auto
  then have ps: "ps = SMALL_PAGE_SIZE" using assms(2) by simp
  then have "resolve_vpn s a = Some (cdiv a SMALL_PAGE_SIZE)"
    using False assms(1) by (simp add: resolve_vpn_def Let_def)
  then show ?thesis using assms(1) ps by blast
qed

lemma resolve_vpn_tlb: "resolve_vpn (s\<lparr>tlb := t\<rparr>) a = resolve_vpn s a"
  by (simp add: resolve_vpn_def Let_def)

lemma default_sizes:
  "decide_page_size PolicyEngine_default 4096 = SMALL_PAGE_SIZE"
  "decide_page_size PolicyEngine_default 2097152 = LARGE_PAGE_SIZE"
  by (simp_all add: PolicyEngine_default_def PolicyEngine_new_def decide_page_size_def)

lemma num_pages_small_request: "num_pages_needed 4096 4096 SMALL_PAGE_SIZE = 1"
  by (simp add: num_pages_needed_def last_vpn_def first_vpn_def int32_def cdiv_def
      SMALL_PAGE_SIZE_def)

lemma num_pages_large_request: "num_pages_needed 2097152 2097152 LARGE_PAGE_SIZE = 1"
  by (simp add: num_pages_needed_def last_vpn_def first_vpn_def int32_def cdiv_def
      LARGE_PAGE_SIZE_def)

lemma cdiv_small_small: "cdiv SMALL_PAGE_SIZE SMALL_PAGE_SIZE = 1"
  by (simp add: cdiv_def SMALL_PAGE_SIZE_def)

lemma allocate_small_first:
  "\<exists>s1. allocate (MMU_new PolicyEngine_default) 4096 4096 = Inr s1 \<and>
     page_table s1 = [1 \<mapsto> (0, SMALL_PAGE_SIZE)] \<and> policy_engine s1 = PolicyEngine_default"
proof -
  define s0 where "s0 = (MMU_new PolicyEngine_default)\<lparr>internal_fragmentation :=
      int32 (internal_fragmentation (MMU_new PolicyEngine_default)
        + fragmentation_contribution (policy_engine (MMU_new PolicyEngine_default)) 4096 4096)\<rparr>"
  have u: "allocate (MMU_new PolicyEngine_default) 4096 4096
      = allocate_pages s0 4096 SMALL_PAGE_SIZE 1 0"
    by (simp add: allocate_unfold s0_def MMU_new_fields default_sizes num_pages_small_request)
  have v: "int32 (cdiv 4096 SMALL_PAGE_SIZE + 0) = 1"
    by (simp add: cdiv_def SMALL_PAGE_SIZE_def int32_def)
  have absent: "page_table s0 (int32 (cdiv 4096 SMALL_PAGE_SIZE + 0)) = None"
    by (simp add: s0_def MMU_new_fields)
  have "find_and_allocate_physical_frames (replicate 0 True @ replicate 262144 False) 1
      = (int 0, replicate (0 + nat 1) True @ replicate (262144 - nat 1) False)"
    by (rule faa_blocks) simp_all
  then have f: "find_and_allocate_physical_frames (physical_frames s0)
      (cdiv SMALL_PAGE_SIZE SMALL_PAGE_SIZE) = (0, replicate 1 True @ replicate 262143 False)"
    by (simp add: s0_def MMU_new_fields cdiv_small_small)
  define s1 where "s1 = s0\<lparr>physical_frames := replicate 1 True @ replicate 262143 False,
      page_table := (page_table s0)(int32 (cdiv 4096 SMALL_PAGE_SIZE + 0) \<mapsto> (0, SMALL_PAGE_SIZE))\<rparr>"
  have "allocate_pages s0 4096 SMALL_PAGE_SIZE 1 0 = allocate_pages s1 4096 SMALL_PAGE_SIZE 1 (0 + 1)"
    by (rule allocate_pages_new [OF _ absent f _ s1_def]) simp_all
  also have "\<dots> = Inr s1" by (simp add: allocate_pages_done)
  finally have "allocate (MMU_new PolicyEngine_default) 4096 4096 = Inr s1" using u by simp
  moreover have "page_table s1 = [1 \<mapsto> (0, SMALL_PAGE_SIZE)]"
    unfolding s1_def v by (simp add: s0_def MMU_new_fields)
  moreover have "policy_engine s1 = PolicyEngine_default"
    by (simp add: s1_def s0_def MMU_new_fields)
  ultimately show ?thesis by blast
qed

lemma allocate_large_collides:
  assumes "page_table s 1 \<noteq> None" "policy_engine s = PolicyEngine_default"
  shows "allocate s 2097152 2097152
     = Inr (s\<lparr>internal_fragmentation := int32 (internal_fragmentation s)\<rparr>)"
proof -
  have c: "fragmentation_contribution PolicyEngine_default 2097152 2097152 = 0"
    by (simp add: fragmentation_contribution_def default_sizes num_pages_large_request)
       (simp add: LARGE_PAGE_SIZE_def)
  have v: "int32 (cdiv 2097152 LARGE_PAGE_SIZE + 0) = 1"
    by (simp add: cdiv_def LARGE_PAGE_SIZE_def int32_def)
  define s0 where "s0 = s\<lparr>internal_fragmentation := int32 (internal_fragmentation s)\<rparr>"
  have u: "allocate s 2097152 2097152 = allocate_pages s0 2097152 LARGE_PAGE_SIZE 1 0"
    by (simp add: allocate_unfold s0_def assms(2) default_sizes num_pages_large_request c)
  have p: "page_table s0 (int32 (cdiv 2097152 LARGE_PAGE_SIZE + 0)) \<noteq> None"
    unfolding v using assms(1) by (simp add: s0_def)
  have "allocate_pages s0 2097152 LARGE_PAGE_SIZE 1 0
      = allocate_pages s0 2097152 LARGE_PAGE_SIZE 1 (0 + 1)"
    by (rule allocate_pages_skip [OF _ p]) simp
  also have "\<dots> = Inr s0" by (simp add: allocate_pages_done)
  finally show ?thesis using u by (simp add: s0_def)
qed

lemma allocate_oom_state:
  assumes "allocate s virtual_address request_size = Inl (e, s')"
  shows "e = OutOfMemory \<and> page_table s \<subseteq>\<^sub>m page_table s' \<and>
     (\<exists>j. 0 \<le> j \<and>
        j < num_pages_needed virtual_address request_size
              (decide_page_size (policy_engine s) request_size) \<and>
        oom_at s s' virtual_address (decide_page_size (policy_engine s) request_size) 0 j)"
proof -
  define s1 where "s1 = s\<lparr>internal_fragmentation :=
      int32 (internal_fragmentation s
             + fragmentation_contribution (policy_engine s) virtual_address request_size)\<rparr>"
  define ps where "ps = decide_page_size (policy_engine s) request_size"
  have r: "allocate_pages s1 virtual_address ps
             (num_pages_needed virtual_address request_size ps) 0 = Inl (e, s')"
    using assms by (simp add: allocate_unfold s1_def ps_def)
  have k: "1 \<le> cdiv ps SMALL_PAGE_SIZE" unfolding ps_def by (rule frames_per_page_pos)
  from allocate_pages_Inl [OF k, of s1 virtual_address _ 0 e s'] r
  obtain j where e: "e = OutOfMemory" and j: "0 \<le> j"
      "j < num_pages_needed virtual_address request_size ps"
    and o: "oom_at s1 s' virtual_address ps 0 j"
    by blast
  have "oom_at s s' virtual_address ps 0 j"
    using o by (simp add: oom_at_def s1_def)
  moreover have "page_table s \<subseteq>\<^sub>m page_table s'"
    using allocate_frame(3) [of s virtual_address request_size] assms
    by (simp add: after_allocate_def)
  ultimately show ?thesis using e j unfolding ps_def by blast
qed

lemma allocate_charged:
  "allocate s va sz =
     allocate_pages (charged s va sz) va (decide_page_size (policy_engine s) sz)
       (num_pages_needed va sz (decide_page_size (policy_engine s) sz)) 0"
  by (simp add: allocate_def charged_def Let_def)

lemma charged_fields:
  "page_table (charged s va sz) = page_table s"
  "physical_frames (charged s va sz) = physical_frames s"
  "policy_engine (charged s va sz) = policy_engine s"
  "tlb (charged s va sz) = tlb s"
  by (simp_all add: charged_def Let_def)

lemma allocate_pages_prefix_fail:
  assumes "1 \<le> cdiv ps SMALL_PAGE_SIZE" "j < n"
    "page_table s' (int32 (cdiv va ps + j)) = None"
    "fst (find_and_allocate_physical_frames (physical_frames s') (cdiv ps SMALL_PAGE_SIZE)) = - 1"
  shows "i \<le> j \<longrightarrow> allocate_pages s va ps j i = Inr s' \<longrightarrow>
     allocate_pages s va ps n i = Inl (OutOfMemory, s')"
proof (induction s i rule: allocate_pages_cases [where n = j and va = va and ps = ps])
  case (finished s i)
  show ?case
  proof (intro impI)
    assume le: "i \<le> j" and r: "allocate_pages s va ps j i = Inr s'"
    have ij: "i = j" using le finished by simp
    have s': "s' = s" using r finished by (simp add: allocate_pages_done)
    obtain frames where f: "find_and_allocate_physical_frames (physical_frames s)
        (cdiv ps SMALL_PAGE_SIZE) = (- 1, frames)"
      using assms(4) unfolding s'
      by (cases "find_and_allocate_physical_frames (physical_frames s) (cdiv ps SMALL_PAGE_SIZE)")
         simp
    have same: "frames = physical_frames s" using faa_fail_unchanged [OF assms(1) f] .
    have "allocate_pages s va ps n j = Inl (OutOfMemory, s\<lparr>physical_frames := frames\<rparr>)"
      using assms(3) unfolding s' by (intro allocate_pages_fail [OF assms(2) _ f])
    then show "allocate_pages s va ps n i = Inl (OutOfMemory, s')"
      unfolding ij s' same by simp
  qed
next
  case (present s i)
  have lt: "i < n" using present(1) assms(2) by simp
  show ?case
    using present unfolding allocate_pages_skip [OF present(1,2)] allocate_pages_skip [OF lt present(2)]
    by simp
next
  case (oom s i frames)
  show ?case unfolding allocate_pages_fail [OF oom(1,2,3)] by simp
next
  case (fresh s i pfn frames s1)
  have lt: "i < n" using fresh(1) assms(2) by simp
  show ?case
    using fresh(1,6)
    unfolding allocate_pages_new [OF fresh(1-5)] allocate_pages_new [OF lt fresh(2-5)]
    by simp
qed

lemma allocate_pages_Inl_prefix:
  assumes "1 \<le> cdiv ps SMALL_PAGE_SIZE"
  shows "allocate_pages s va ps n i = Inl (e, s') \<longrightarrow>
     e = OutOfMemory \<and>
     (\<exists>j. i \<le> j \<and> j < n \<and> allocate_pages s va ps j i = Inr s' \<and>
        page_table s' (int32 (cdiv va ps + j)) = None \<and>
        fst (find_and_allocate_physical_frames (physical_frames s') (cdiv ps SMALL_PAGE_SIZE)) = - 1)"
proof (induction s i rule: allocate_pages_cases [where n = n and va = va and ps = ps])
  case (finished s i)
  then show ?case by (simp add: allocate_pages_done)
next
  case (present s i)
  show ?case
  proof
    assume "allocate_pages s va ps n i = Inl (e, s')"
    then have "allocate_pages s va ps n (i + 1) = Inl (e, s')"
      using present(1,2) by (simp add: allocate_pages_skip)
    then obtain j where e: "e = OutOfMemory" and j: "i + 1 \<le> j" "j < n"
      and r: "allocate_pages s va ps j (i + 1) = Inr s'"
      and a: "page_table s' (int32 (cdiv va ps + j)) = None"
      and f: "fst (find_and_allocate_physical_frames (physical_frames s')
          (cdiv ps SMALL_PAGE_SIZE)) = - 1"
      using present(3) by blast
    have ij: "i < j" using j(1) by simp
    have "allocate_pages s va ps j i = Inr s'"
      using r by (simp add: allocate_pages_skip [OF ij present(2)])
    moreover have "i \<le> j" using ij by simp
    ultimately show "e = OutOfMemory \<and>
     (\<exists>j. i \<le> j \<and> j < n \<and> allocate_pages s va ps j i = Inr s' \<and>
        page_table s' (int32 (cdiv va ps + j)) = None \<and>
        fst (find_and_allocate_physical_frames (physical_frames s') (cdiv ps SMALL_PAGE_SIZE)) = - 1)"
      using e j(2) a f by blast
  qed
next
  case (oom s i frames)
  have same: "frames = physical_frames s" using faa_fail_unchanged [OF assms oom(3)] .
  show ?case
  proof
    assume "allocate_pages s va ps n i = Inl (e, s')"
    then have e: "e = OutOfMemory" and s': "s' = s"
      using oom same by (simp_all add: allocate_pages_fail)
    have "allocate_pages s va ps i i = Inr s'" unfolding s' by (simp add: allocate_pages_done)
    moreover have "page_table s' (int32 (cdiv va ps + i)) = None" using oom(2) by (simp add: s')
    moreover have "fst (find_and_allocate_physical_frames (physical_frames s')
          (cdiv ps SMALL_PAGE_SIZE)) = - 1"
      using oom(3) by (simp add: s')
    ultimately show "e = OutOfMemory \<and>
     (\<exists>j. i \<le> j \<and> j < n \<and> allocate_pages s va ps j i = Inr s' \<and>
        page_table s' (int32 (cdiv va ps + j)) = None \<and>
        fst (find_and_allocate_physical_frames (physical_frames s') (cdiv ps SMALL_PAGE_SIZE)) = - 1)"
      using e oom(1) by (intro conjI exI [of _ i]) simp_all
  qed
next
  case (fresh s i pfn frames s1)
  show ?case
  proof
    assume "allocate_pages s va ps n i = Inl (e, s')"
    then have "allocate_pages s1 va ps n (i + 1) = Inl (e, s')"
      using allocate_pages_new [OF fresh(1-5)] by simp
    then obtain j where e: "e = OutOfMemory" and j: "i + 1 \<le> j" "j < n"
      and r: "allocate_pages s1 va ps j (i + 1) = Inr s'"
      and a: "page_table s' (int32 (cdiv va ps + j)) = None"
      and f: "fst (find_and_allocate_physical_frames (physical_frames s')
          (cdiv ps SMALL_PAGE_SIZE)) = - 1"
      using fresh(6) by blast
    have ij: "i < j" using j(1) by simp
    have "allocate_pages s va ps j i = Inr s'"
      using r by (simp add: allocate_pages_new [OF ij fresh(2-5)])
    moreover have "i \<le> j" using ij by simp
    ultimately show "e = OutOfMemory \<and>
     (\<exists>j. i \<le> j \<and> j < n \<and> allocate_pages s va ps j i = Inr s' \<and>
        page_table s' (int32 (cdiv va ps + j)) = None \<and>
        fst (find_and_allocate_physical_frames (physical_frames s') (cdiv ps SMALL_PAGE_SIZE)) = - 1)"
      using e j(2) a f by blast
  qed
qed

lemma allocate_fails_iff:
  "allocate s va sz = Inl (e, s') \<longleftrightarrow>
     e = OutOfMemory \<and>
     (\<exists>j. 0 \<le> j \<and> j < num_pages_needed va sz (decide_page_size (policy_engine s) sz) \<and>
        allocate_pages (charged s va sz) va (decide_page_size (policy_engine s) sz) j 0 = Inr s' \<and>
        page_table s' (int32 (cdiv va (decide_page_size (policy_engine s) sz) + j)) = None \<and>
        fst (find_and_allocate_physical_frames (physical_frames s')
               (cdiv (decide_page_size (policy_engine s) sz) SMALL_PAGE_SIZE)) = - 1)"
proof
  assume "allocate s va sz = Inl (e, s')"
  then show "e = OutOfMemory \<and>
     (\<exists>j. 0 \<le> j \<and> j < num_pages_needed va sz (decide_page_size (policy_engine s) sz) \<and>
        allocate_pages (charged s va sz) va (decide_page_size (policy_engine s) sz) j 0 = Inr s' \<and>
        page_table s' (int32 (cdiv va (decide_page_size (policy_engine s) sz) + j)) = None \<and>
        fst (find_and_allocate_physical_frames (physical_frames s')
               (cdiv (decide_page_size (policy_engine s) sz) SMALL_PAGE_SIZE)) = - 1)"
    unfolding allocate_charged using allocate_pages_Inl_prefix [OF frames_per_page_pos] by blast
next
  assume a: "e = OutOfMemory \<and>
     (\<exists>j. 0 \<le> j \<and> j < num_pages_needed va sz (decide_page_size (policy_engine s) sz) \<and>
        allocate_pages (charged s va sz) va (decide_page_size (policy_engine s) sz) j 0 = Inr s' \<and>
        page_table s' (int32 (cdiv va (decide_page_size (policy_engine s) sz) + j)) = None \<and>
        fst (find_and_allocate_physical_frames (physical_frames s')
               (cdiv (decide_page_size (policy_engine s) sz) SMALL_PAGE_SIZE)) = - 1)"
  then obtain j where j: "0 \<le> j" "j < num_pages_needed va sz (decide_page_size (policy_engine s) sz)"
    and r: "allocate_pages (charged s va sz) va (decide_page_size (policy_engine s) sz) j 0 = Inr s'"
    and p: "page_table s' (int32 (cdiv va (decide_page_size (policy_engine s) sz) + j)) = None"
    and f: "fst (find_and_allocate_physical_frames (physical_frames s')
               (cdiv (decide_page_size (policy_engine s) sz) SMALL_PAGE_SIZE)) = - 1"
    by blast
  from allocate_pages_prefix_fail [OF frames_per_page_pos j(2) p f] j(1) r
  show "allocate s va sz = Inl (e, s')"
    unfolding allocate_charged using a by blast
qed

lemma num_pages_beyond: "num_pages_needed 1073741824 1 LARGE_PAGE_SIZE = 1"
  by (simp add: num_pages_needed_def last_vpn_def first_vpn_def int32_def cdiv_def
      LARGE_PAGE_SIZE_def)

lemma vpn_beyond: "int32 (cdiv 1073741824 LARGE_PAGE_SIZE) = 512"
  by (simp add: cdiv_def LARGE_PAGE_SIZE_def int32_def)

lemma allocate_one_first_state:
  "allocate (MMU_new large_policy) 0 1 =
     Inr ((MMU_new large_policy)
            \<lparr>page_table := [0 \<mapsto> (0, LARGE_PAGE_SIZE)],
             physical_frames := replicate 512 True @ replicate 261632 False,
             internal_fragmentation := 2097151\<rparr>)"
proof -
  define s1 where "s1 = (MMU_new large_policy)\<lparr>internal_fragmentation := 2097151\<rparr>"
  have u: "allocate (MMU_new large_policy) 0 1 = allocate_pages s1 0 LARGE_PAGE_SIZE 1 0"
    by (simp add: allocate_unfold s1_def MMU_new_fields large_policy_size num_pages_one
        contribution_one int32_def)
  have v: "int32 (cdiv 0 LARGE_PAGE_SIZE + 0) = 0" by (simp add: cdiv_zero int32_def)
  have absent: "page_table s1 (int32 (cdiv 0 LARGE_PAGE_SIZE + 0)) = None"
    by (simp add: s1_def MMU_new_fields)
  have "find_and_allocate_physical_frames (replicate 0 True @ replicate 262144 False) 512
      = (int 0, replicate (0 + nat 512) True @ replicate (262144 - nat 512) False)"
    by (rule faa_blocks) simp_all
  then have f: "find_and_allocate_physical_frames (physical_frames s1)
      (cdiv LARGE_PAGE_SIZE SMALL_PAGE_SIZE)
      = (0, replicate 512 True @ replicate 261632 False)"
    by (simp add: s1_def MMU_new_fields cdiv_large_small)
  define s2 where "s2 = s1\<lparr>physical_frames := replicate 512 True @ replicate 261632 False,
      page_table := (page_table s1)(int32 (cdiv 0 LARGE_PAGE_SIZE + 0) \<mapsto> (0, LARGE_PAGE_SIZE))\<rparr>"
  have "allocate_pages s1 0 LARGE_PAGE_SIZE 1 0 = allocate_pages s2 0 LARGE_PAGE_SIZE 1 (0 + 1)"
    by (rule allocate_pages_new [OF _ absent f _ s2_def]) simp_all
  also have "\<dots> = Inr s2" by (simp add: allocate_pages_done)
  finally have "allocate (MMU_new large_policy) 0 1 = Inr s2" using u by simp
  moreover have "s2 = (MMU_new large_policy)
            \<lparr>page_table := [0 \<mapsto> (0, LARGE_PAGE_SIZE)],
             physical_frames := replicate 512 True @ replicate 261632 False,
             internal_fragmentation := 2097151\<rparr>"
    unfolding s2_def v by (simp add: s1_def MMU_new_fields)
  ultimately show ?thesis by simp
qed

lemma allocation_phase_repeat_state:
  assumes "page_table s 0 \<noteq> None" "policy_engine s = large_policy"
    "int32 (internal_fragmentation s) = internal_fragmentation s"
  shows "allocation_phase s (replicate n (0, 1)) =
     Inr (s\<lparr>internal_fragmentation := int32 (internal_fragmentation s + int n * 2097151)\<rparr>)"
  using assms
proof (induction n arbitrary: s)
  case 0
  then show ?case by simp
next
  case (Suc n)
  define s1 where "s1 = s\<lparr>internal_fragmentation := int32 (internal_fragmentation s + 2097151)\<rparr>"
  have a: "allocate s 0 1 = Inr s1"
    unfolding s1_def by (rule allocate_one_again [OF Suc.prems(1,2)])
  have r: "allocation_phase s1 (replicate n (0, 1)) =
     Inr (s1\<lparr>internal_fragmentation := int32 (internal_fragmentation s1 + int n * 2097151)\<rparr>)"
    by (rule Suc.IH) (simp_all add: s1_def Suc.prems int32_idem)
  have "int32 (internal_fragmentation s1 + int n * 2097151)
        = int32 (internal_fragmentation s + 2097151 + int n * 2097151)"
    unfolding s1_def by (simp add: int32_add_left)
  also have "\<dots> = int32 (internal_fragmentation s + int (Suc n) * 2097151)"
    by (simp add: algebra_simps)
  finally have e: "int32 (internal_fragmentation s1 + int n * 2097151)
        = int32 (internal_fragmentation s + int (Suc n) * 2097151)" .
  have "allocation_phase s (replicate (Suc n) (0, 1)) = allocation_phase s1 (replicate n (0, 1))"
    using a by simp
  also have "\<dots> = Inr (s1\<lparr>internal_fragmentation :=
      int32 (internal_fragmentation s + int (Suc n) * 2097151)\<rparr>)"
    unfolding r e ..
  also have "s1\<lparr>internal_fragmentation := int32 (internal_fragmentation s + int (Suc n) * 2097151)\<rparr>
      = s\<lparr>internal_fragmentation := int32 (internal_fragmentation s + int (Suc n) * 2097151)\<rparr>"
    by (simp add: s1_def)
  finally show ?case .
qed

lemma allocate_exhaust_after_first:
  assumes "physical_frames s = replicate 512 True @ replicate 261632 False"
    "page_table s = [0 \<mapsto> (0, LARGE_PAGE_SIZE)]" "policy_engine s = large_policy"
  shows "\<exists>s'. allocate s 0 1073741825 = Inl (OutOfMemory, s') \<and>
     internal_fragmentation s' = int32 (internal_fragmentation s + 2097151)"
proof -
  define s1 where "s1 = s\<lparr>internal_fragmentation := int32 (internal_fragmentation s + 2097151)\<rparr>"
  have u: "allocate s 0 1073741825 = allocate_pages s1 0 LARGE_PAGE_SIZE 513 0"
    by (simp add: allocate_unfold s1_def assms(3) large_policy_size num_pages_exhaust
        contribution_exhaust)
  have p: "page_table s1 (int32 (cdiv 0 LARGE_PAGE_SIZE + 0)) \<noteq> None"
    by (simp add: s1_def assms(2) cdiv_zero int32_def)
  have skip: "allocate_pages s1 0 LARGE_PAGE_SIZE 513 0 = allocate_pages s1 0 LARGE_PAGE_SIZE 513 (int 1)"
    using allocate_pages_skip [OF _ p, of 513] by simp
  have fr: "physical_frames s1 = replicate (512 * 1) True @ replicate (262144 - 512 * 1) False"
    by (simp add: s1_def assms(1))
  have pt: "\<forall>v. page_table s1 v \<noteq> None \<longrightarrow> 0 \<le> v \<and> v < int 1"
    by (simp add: s1_def assms(2))
  from large_fill [OF _ fr pt, of 513]
  obtain s' where "allocate_pages s1 0 LARGE_PAGE_SIZE 513 (int 1) = Inl (OutOfMemory, s')"
    and "internal_fragmentation s' = internal_fragmentation s1"
    by auto
  then show ?thesis using u skip by (simp add: s1_def)
qed

lemma claimed_contribution_exhaust: "claimed_contribution large_policy 0 1073741825 = 2097151"
  by (simp add: claimed_contribution_def large_policy_size LARGE_PAGE_SIZE_def)

lemma resolve_vpn_order:
  "resolve_vpn s a = Some v \<Longrightarrow> page_table s v = Some (f, sz) \<Longrightarrow>
     (if \<exists>f'. page_table s (cdiv a LARGE_PAGE_SIZE) = Some (f', LARGE_PAGE_SIZE)
      then v = cdiv a LARGE_PAGE_SIZE \<and> sz = LARGE_PAGE_SIZE
      else v = cdiv a SMALL_PAGE_SIZE \<and> sz = SMALL_PAGE_SIZE)"
  by (auto simp: resolve_vpn_def Let_def split: if_splits option.splits)

lemma translate_after_allocate:
  assumes "s = mmu_run (MMU_new pe) ops1"
    and "allocate s virtual_address request_size = Inr s1"
    and "s2 = mmu_run s1 ops2"
    and "in_int virtual_address"
    and "virtual_address \<le> a" "a \<le> virtual_address + request_size - 1"
    and "virtual_address + request_size - 1 \<le> INT_MAX"
    and "mode pe \<noteq> ''dynamic'' \<or>
         (\<forall>f sz. page_table s (cdiv a (decide_page_size pe request_size)) = Some (f, sz) \<longrightarrow>
            sz = decide_page_size pe request_size)"
  shows "\<exists>v f sz. resolve_vpn s2 a = Some v \<and> page_table s2 v = Some (f, sz) \<and> v = cdiv a sz \<and>
     (if \<exists>f'. page_table s2 (cdiv a LARGE_PAGE_SIZE) = Some (f', LARGE_PAGE_SIZE)
      then sz = LARGE_PAGE_SIZE else sz = SMALL_PAGE_SIZE) \<and>
     (\<exists>s3. translate s2 a = Inr (f, s3) \<and> page_table s3 = page_table s2 \<and>
        map_of (map_od (cache (tlb s3))) v = Some f) \<and>
     (\<forall>t. od_inv (cache t) \<and> 1 \<le> size_tlb t \<and> tlb_consistent t (page_table s2) \<longrightarrow>
        (\<exists>s3. translate (s2\<lparr>tlb := t\<rparr>) a = Inr (f, s3)))"
proof -
  define ps where "ps = decide_page_size pe request_size"
  have pol: "policy_engine s = pe" using assms(1) by (simp add: mmu_run_policy MMU_new_fields)
  have inv: "mmu_inv s" unfolding assms(1) by (rule mmu_run_inv [OF mmu_inv_new])
  have s1: "s1 = after_allocate (allocate s virtual_address request_size)"
    using assms(2) by (simp add: after_allocate_def)
  have inv2: "mmu_inv s2" unfolding assms(3) s1 by (intro mmu_run_inv allocate_inv inv)
  have psr: "ps = SMALL_PAGE_SIZE \<or> ps = LARGE_PAGE_SIZE"
    unfolding ps_def by (rule decide_page_size_range)
  obtain e where e1: "page_table s1 (cdiv a ps) = Some e"
    and e: "page_table s (cdiv a ps) = Some e \<or> snd e = ps"
    using allocate_success_covers [OF assms(2,4,5,6,7)] pol ps_def by auto
  have sz: "snd e = ps"
  proof (cases "page_table s (cdiv a ps) = Some e")
    case False
    then show ?thesis using e by simp
  next
    case True
    show ?thesis
    proof (cases "mode pe = ''dynamic''")
      case False
      have "\<forall>v e. page_table (mmu_run (MMU_new pe) ops1) v = Some e \<longrightarrow>
          snd e = decide_page_size (policy_engine (MMU_new pe)) 0"
        by (rule mmu_run_uniform) (use False in \<open>simp_all add: MMU_new_fields\<close>)
      then have "\<forall>v e. page_table s v = Some e \<longrightarrow> snd e = decide_page_size pe 0"
        unfolding assms(1) by (simp only: MMU_new_fields)
      then have "snd e = decide_page_size pe 0"
        using True by blast
      then show ?thesis using decide_static [OF False, of request_size] by (simp add: ps_def)
    next
      case dyn: True
      then have "\<forall>f sz. page_table s (cdiv a ps) = Some (f, sz) \<longrightarrow> sz = ps"
        using assms(8) by (simp add: ps_def)
      then show ?thesis using True by (cases e) auto
    qed
  qed
  have "page_table s2 (cdiv a ps) = Some e"
    unfolding assms(3) using map_le_Some [OF mmu_run_map_le e1] .
  then have e2: "page_table s2 (cdiv a ps) = Some (fst e, ps)" using sz by (cases e) auto
  from resolve_vpn_total [OF e2 psr]
  obtain v f sz where r: "resolve_vpn s2 a = Some v" and pv: "page_table s2 v = Some (f, sz)"
    and v: "v = cdiv a sz"
    by blast
  have here: "\<exists>s3. translate s2 a = Inr (f, s3) \<and> page_table s3 = page_table s2 \<and>
        map_of (map_od (cache (tlb s3))) v = Some f"
    using translate_resolved [OF r pv inv2] by blast
  have any: "\<exists>s3. translate (s2\<lparr>tlb := t\<rparr>) a = Inr (f, s3)"
    if t: "od_inv (cache t) \<and> 1 \<le> size_tlb t \<and> tlb_consistent t (page_table s2)" for t
  proof -
    have "mmu_inv (s2\<lparr>tlb := t\<rparr>)" using t by (simp add: mmu_inv_def)
    moreover have "resolve_vpn (s2\<lparr>tlb := t\<rparr>) a = Some v" using r by (simp add: resolve_vpn_tlb)
    moreover have "page_table (s2\<lparr>tlb := t\<rparr>) v = Some (f, sz)" using pv by simp
    ultimately show ?thesis using translate_resolved by blast
  qed
  have ord: "if \<exists>f'. page_table s2 (cdiv a LARGE_PAGE_SIZE) = Some (f', LARGE_PAGE_SIZE)
      then sz = LARGE_PAGE_SIZE else sz = SMALL_PAGE_SIZE"
    using resolve_vpn_order [OF r pv] by simp
  show ?thesis using r pv v ord here any by blast
qed

lemma allocate_failure_charge:
  assumes "allocate s virtual_address request_size = Inl (e, s')"
  shows "e = OutOfMemory \<and>
     get_internal_fragmentation s' =
       int32 (internal_fragmentation s
              + fragmentation_contribution (policy_engine s) virtual_address request_size) \<and>
     (in_int (internal_fragmentation s
              + fragmentation_contribution (policy_engine s) virtual_address request_size) \<longrightarrow>
      get_internal_fragmentation s' =
        internal_fragmentation s
        + fragmentation_contribution (policy_engine s) virtual_address request_size)"
proof -
  have e: "e = OutOfMemory"
  proof -
    have "allocate_pages (s\<lparr>internal_fragmentation :=
            int32 (internal_fragmentation s
                   + fragmentation_contribution (policy_engine s) virtual_address request_size)\<rparr>)
       virtual_address (decide_page_size (policy_engine s) request_size)
       (num_pages_needed virtual_address request_size
          (decide_page_size (policy_engine s) request_size)) 0 = Inl (e, s')"
      using assms by (simp add: allocate_unfold)
    then show ?thesis
      using allocate_pages_Inl [OF frames_per_page_pos] by blast
  qed
  have f: "internal_fragmentation s' =
       int32 (internal_fragmentation s
              + fragmentation_contribution (policy_engine s) virtual_address request_size)"
    using allocate_fragmentation [of s virtual_address request_size] assms
    by (simp add: after_allocate_def)
  show ?thesis
    using e f by (simp add: get_internal_fragmentation_def in_int_def INT_MIN_def INT_MAX_def int32_id)
qed

section \<open>Claims\<close>

text \<open>
  C1, at the failing input. Under the default policy (mode "dynamic", threshold 1 MiB) on a
  fresh MMU, \<open>allocate(4096, 4096)\<close> returns normally and creates the small-page entry of VPN
  1, in frame 0. \<open>allocate(2097152, 2097152)\<close> selects large pages; its only VPN is
  \<open>2097152 / 2097152 = 1\<close>, which is already a key, so the loop skips it (the test of line 130
  looks at the key alone) and the call returns normally with the page table as it was.
  \<open>translate\<close> of 2097152 and of 4194303, the first and the last address of the second
  request, finds at the large-page VPN 1 an entry whose recorded size is not the large-page
  size (the test of line 150 looks at the size as well) and at the small-page VPNs 512 and
  1023 no entry, and throws "Invalid virtual address", where C1 has it obtain the frame
  recorded for the VPN that covers the address.
\<close>

theorem translate_fails_after_colliding_allocate:
  "\<not> isl (allocate (MMU_new PolicyEngine_default) 4096 4096) \<and>
   \<not> isl (allocate (mmu_run (MMU_new PolicyEngine_default) [Allocate 4096 4096])
            2097152 2097152) \<and>
   page_table (mmu_run (MMU_new PolicyEngine_default)
                 [Allocate 4096 4096, Allocate 2097152 2097152])
     = [1 \<mapsto> (0, SMALL_PAGE_SIZE)] \<and>
   map_sum fst fst
     (translate (mmu_run (MMU_new PolicyEngine_default)
                   [Allocate 4096 4096, Allocate 2097152 2097152]) 2097152)
     = Inl InvalidAddress \<and>
   map_sum fst fst
     (translate (mmu_run (MMU_new PolicyEngine_default)
                   [Allocate 4096 4096, Allocate 2097152 2097152]) 4194303)
     = Inl InvalidAddress"
proof -
  obtain s1 where a1: "allocate (MMU_new PolicyEngine_default) 4096 4096 = Inr s1"
    and pt1: "page_table s1 = [1 \<mapsto> (0, SMALL_PAGE_SIZE)]"
    and pe1: "policy_engine s1 = PolicyEngine_default"
    using allocate_small_first by blast
  have p1: "page_table s1 1 \<noteq> None" by (simp add: pt1)
  define s2 where "s2 = s1\<lparr>internal_fragmentation := int32 (internal_fragmentation s1)\<rparr>"
  have a2: "allocate s1 2097152 2097152 = Inr s2"
    unfolding s2_def by (rule allocate_large_collides [OF p1 pe1])
  have r1: "mmu_run (MMU_new PolicyEngine_default) [Allocate 4096 4096] = s1"
    by (simp add: a1 after_allocate_def)
  have r2: "mmu_run (MMU_new PolicyEngine_default)
      [Allocate 4096 4096, Allocate 2097152 2097152] = s2"
    by (simp add: a1 a2 after_allocate_def)
  have pt2: "page_table s2 = [1 \<mapsto> (0, SMALL_PAGE_SIZE)]" by (simp add: s2_def pt1)
  have "resolve_vpn s2 2097152 = None"
    by (simp add: resolve_vpn_def s2_def pt1 cdiv_def LARGE_PAGE_SIZE_def SMALL_PAGE_SIZE_def)
  then have t1: "translate s2 2097152 = Inl (InvalidAddress, s2)" by (simp add: translate_def)
  have "resolve_vpn s2 4194303 = None"
    by (simp add: resolve_vpn_def s2_def pt1 cdiv_def LARGE_PAGE_SIZE_def SMALL_PAGE_SIZE_def)
  then have t2: "translate s2 4194303 = Inl (InvalidAddress, s2)" by (simp add: translate_def)
  show ?thesis unfolding r1 r2 using a1 a2 pt2 t1 t2 by simp
qed

text \<open>
  C2, at the failing input. With the policy "large", 1025 calls \<open>allocate(0, 1)\<close> all return
  normally; each contributes \<open>1 * 2097152 - 1 = 2097151\<close>, so the contributions sum to
  2149579775, but the \<^verbatim>\<open>int\<close> counter has wrapped and \<open>get_internal_fragmentation\<close> returns
  \<open>-2145387521\<close>.
\<close>

theorem fragmentation_counter_overflow:
  "map_sum fst get_internal_fragmentation
     (allocation_phase (MMU_new (PolicyEngine_new ''large'' (1 * 1024 * 1024)))
        (replicate 1025 (0, 1))) = Inr (- 2145387521) \<and>
   (\<Sum>req\<leftarrow>replicate 1025 (0, 1).
      fragmentation_contribution (PolicyEngine_new ''large'' (1 * 1024 * 1024)) (fst req) (snd req))
     = 2149579775"
proof -
  obtain s1 where a: "allocate (MMU_new large_policy) 0 1 = Inr s1"
    and p: "page_table s1 0 \<noteq> None" "policy_engine s1 = large_policy"
    and f: "internal_fragmentation s1 = 2097151"
    using allocate_one_first by blast
  have w: "int32 (internal_fragmentation s1) = internal_fragmentation s1"
    by (simp add: f int32_def)
  obtain s' where r: "allocation_phase s1 (replicate 1024 (0, 1)) = Inr s'"
    and f': "internal_fragmentation s' = int32 (internal_fragmentation s1 + int 1024 * 2097151)"
    using allocation_phase_repeat [OF p w, of 1024] by blast
  have e: "replicate 1025 (0::int, 1::int) = (0, 1) # replicate 1024 (0, 1)"
  proof -
    have "(1025::nat) = Suc 1024" by simp
    then show ?thesis by (simp only: replicate_Suc)
  qed
  have "allocation_phase (MMU_new large_policy) (replicate 1025 (0, 1)) = Inr s'"
    unfolding e using a r by simp
  moreover have "internal_fragmentation s' = - 2145387521"
    unfolding f' f by (simp add: int32_def)
  moreover have "(\<Sum>req\<leftarrow>replicate 1025 (0::int, 1::int).
      fragmentation_contribution large_policy (fst req) (snd req)) = 2149579775"
    by (simp add: sum_list_replicate contribution_one)
  ultimately show ?thesis
    by (simp add: large_policy_def get_internal_fragmentation_def)
qed

text \<open>
  C3 (as amended). On a TLB constructed with a capacity \<open>tlb_capacity \<ge> 0\<close>, after every
  sequence of insert and lookup calls that runs to its end the number of cached entries is at
  most \<open>tlb_capacity\<close>; with \<open>tlb_capacity \<ge> 1\<close> every sequence runs to its end. (With
  capacity 0 an insert into the empty cache reads \<^verbatim>\<open>front()\<close> of an empty order vector.)
\<close>

theorem tlb_capacity_invariant:
  assumes "0 \<le> tlb_capacity"
  shows "(\<forall>t. tlb_run (TLB_new tlb_capacity) ops = Inr t \<longrightarrow>
            int (size_od (cache t)) \<le> tlb_capacity) \<and>
         (1 \<le> tlb_capacity \<longrightarrow> (\<exists>t. tlb_run (TLB_new tlb_capacity) ops = Inr t))"
proof -
  have ok: "tlb_ok (TLB_new tlb_capacity)" using assms by (rule tlb_ok_new)
  have "int (size_od (cache t)) \<le> tlb_capacity" if "tlb_run (TLB_new tlb_capacity) ops = Inr t" for t
    using tlb_ok_run [OF ok that] by (simp add: tlb_ok_def TLB_new_def)
  moreover have "\<exists>t. tlb_run (TLB_new tlb_capacity) ops = Inr t" if "1 \<le> tlb_capacity"
    using tlb_run_defined [OF ok] that by (simp add: TLB_new_def)
  ultimately show ?thesis by blast
qed

theorem tlb_capacity_invariant_witness:
  "(0::int) \<le> 2 \<and>
   (\<exists>t. tlb_run (TLB_new 2) [Insert 1 10, Insert 2 20, Lookup 1, Insert 3 30] = Inr t \<and>
        int (size_od (cache t)) \<le> 2)"
proof -
  have h: "(0::int) \<le> 2" by simp
  from tlb_capacity_invariant [OF h, of "[Insert 1 10, Insert 2 20, Lookup 1, Insert 3 30]"]
  show ?thesis by auto
qed

text \<open>
  C3 as stated fails for a negative capacity: \<^verbatim>\<open>cache.size() >= size\<close> compares as
  \<^verbatim>\<open>size_t\<close>, so a TLB constructed with capacity \<open>-1\<close> never evicts and holds one entry
  after its first insert.
\<close>

theorem tlb_capacity_counterexample:
  "map_sum id (\<lambda>t. int (size_od (cache t))) (tlb_run (TLB_new (- 1)) [Insert 0 0]) = Inr 1"
  by (simp add: TLB_new_def insert_tlb_def contains_def OrderedDict_new_def size_od_def
      to_size_t_def insert_od_def)

text \<open>
  C4 (as amended). Take an empty TLB of capacity \<open>c \<ge> 1\<close> and a sequence of calls that
  inserts \<open>c + 1\<close> distinct VPNs and in which no lookup is of a VPN inserted earlier in the
  sequence (no lookup touches a cached entry again; lookups that miss may stand anywhere).
  The sequence runs to its end and leaves exactly the VPNs inserted after the first one, in
  their insertion order: the first-inserted VPN is the one evicted. No lookup has hit, every
  lookup of the sequence has counted one miss, and a following lookup of the first-inserted
  VPN is a miss too: it returns \<open>-1\<close>, counts one more miss and leaves the cache as it is. In
  every TLB, an insert of a VPN that is not cached, made at capacity, evicts the front of the
  order sequence and nothing else and appends the new VPN at the back; a lookup that hits
  moves its VPN to the back of the order sequence and leaves the order of the others as it
  is; an insert of a VPN that is cached evicts nothing and moves that VPN to the back.
\<close>

theorem lru_eviction:
  assumes "1 \<le> c" "distinct (inserted_vpns ops)" "int (length (inserted_vpns ops)) = c + 1"
    "no_repeated_lookups [] ops"
  shows "(\<exists>t. tlb_run (TLB_new c) ops = Inr t \<and>
            get_order (cache t) = tl (inserted_vpns ops) \<and>
            (\<forall>v. contains (cache t) v \<longleftrightarrow> v \<in> set (tl (inserted_vpns ops))) \<and>
            \<not> contains (cache t) (hd (inserted_vpns ops)) \<and>
            hits t = 0 \<and> misses t = int32 (int (length ops) - (c + 1)) \<and>
            lookup t (hd (inserted_vpns ops)) = (- 1, t\<lparr>misses := int32 (misses t + 1)\<rparr>) \<and>
            count_run t [Lookup (hd (inserted_vpns ops))] = (0, 1)) \<and>
         (\<forall>t v f k ks. od_inv (cache t) \<and> \<not> contains (cache t) v \<and>
            to_size_t (size_tlb t) \<le> int (size_od (cache t)) \<and> get_order (cache t) = k # ks \<longrightarrow>
            (\<exists>t'. insert_tlb t v f = Inr t' \<and> get_order (cache t') = ks @ [v] \<and>
               \<not> contains (cache t') k \<and>
               (\<forall>k'. k' \<noteq> k \<and> k' \<noteq> v \<longrightarrow> contains (cache t') k' = contains (cache t) k'))) \<and>
         (\<forall>t v. od_inv (cache t) \<and> contains (cache t) v \<longrightarrow>
            get_order (cache (snd (lookup t v))) = remove1 v (get_order (cache t)) @ [v]) \<and>
         (\<forall>t v f. od_inv (cache t) \<and> contains (cache t) v \<longrightarrow>
            (\<exists>t'. insert_tlb t v f = Inr t' \<and>
               get_order (cache t') = remove1 v (get_order (cache t)) @ [v] \<and>
               (\<forall>k. contains (cache t') k = contains (cache t) k)))"
proof (intro conjI allI impI)
  fix t :: TLB and v f
  assume "od_inv (cache t) \<and> contains (cache t) v"
  then have i: "od_inv (cache t)" and c: "contains (cache t) v" by simp_all
  show "\<exists>t'. insert_tlb t v f = Inr t' \<and>
               get_order (cache t') = remove1 v (get_order (cache t)) @ [v] \<and>
               (\<forall>k. contains (cache t') k = contains (cache t) k)"
    using insert_tlb_cached [OF i c] by simp
next
  fix t :: TLB and v
  assume "od_inv (cache t) \<and> contains (cache t) v"
  then show "get_order (cache (snd (lookup t v))) = remove1 v (get_order (cache t)) @ [v]"
    by (simp add: lookup_hit_order)
next
  fix t :: TLB and v f k ks
  assume a: "od_inv (cache t) \<and> \<not> contains (cache t) v \<and>
            to_size_t (size_tlb t) \<le> int (size_od (cache t)) \<and> get_order (cache t) = k # ks"
  then have i: "od_inv (cache t)" and n: "\<not> contains (cache t) v"
    and s: "to_size_t (size_tlb t) \<le> int (size_od (cache t))" and g: "get_order (cache t) = k # ks"
    by simp_all
  show "\<exists>t'. insert_tlb t v f = Inr t' \<and> get_order (cache t') = ks @ [v] \<and>
               \<not> contains (cache t') k \<and>
               (\<forall>k'. k' \<noteq> k \<and> k' \<noteq> v \<longrightarrow> contains (cache t') k' = contains (cache t) k')"
    using insert_tlb_evict [OF i n s g] by simp
next
  define vs where "vs = inserted_vpns ops"
  have ok0: "tlb_ok (TLB_new c)" using assms(1) by (intro tlb_ok_new) simp
  have new: "get_order (cache (TLB_new c)) = []" "size_tlb (TLB_new c) = c"
    "hits (TLB_new c) = 0" "misses (TLB_new c) = 0"
    by (simp_all add: TLB_new_def OrderedDict_new_def get_order_def)
  have "\<exists>t'. tlb_run (TLB_new c) ops = Inr t' \<and> tlb_ok t' \<and> size_tlb t' = size_tlb (TLB_new c) \<and>
     hits t' = hits (TLB_new c) \<and>
     misses t' = int32 (misses (TLB_new c) + (int (length ops) - int (length (inserted_vpns ops)))) \<and>
     get_order (cache t') =
       most_recent (nat (size_tlb (TLB_new c))) (get_order (cache (TLB_new c)) @ inserted_vpns ops)"
    by (rule run_without_hits [OF ok0, of "[]"])
       (use assms new in \<open>simp_all add: int32_def\<close>)
  then obtain t where r: "tlb_run (TLB_new c) ops = Inr t" and ok: "tlb_ok t"
    and h: "hits t = 0" and m: "misses t = int32 (int (length ops) - (c + 1))"
    and o: "get_order (cache t) = most_recent (nat c) vs"
    using new assms(3) by (auto simp: vs_def)
  have lv: "length vs = Suc (nat c)" using assms(1,3) by (simp add: vs_def)
  then obtain k ks where vs: "vs = k # ks" by (cases vs) auto
  have o': "get_order (cache t) = tl vs"
    unfolding o most_recent_def using lv vs by simp
  have inv: "od_inv (cache t)" using ok by (simp add: tlb_ok_def)
  have c: "contains (cache t) v \<longleftrightarrow> v \<in> set (tl vs)" for v
    using contains_order [OF inv] o' by simp
  have "distinct vs" using assms(2) by (simp add: vs_def)
  then have n: "\<not> contains (cache t) (hd vs)" using c vs by simp
  have l: "lookup t (hd vs) = (- 1, t\<lparr>misses := int32 (misses t + 1)\<rparr>)"
    by (rule lookup_miss [OF n])
  have cr: "count_run t [Lookup (hd vs)] = (0, 1)" using n by simp
  show "\<exists>t. tlb_run (TLB_new c) ops = Inr t \<and>
            get_order (cache t) = tl (inserted_vpns ops) \<and>
            (\<forall>v. contains (cache t) v \<longleftrightarrow> v \<in> set (tl (inserted_vpns ops))) \<and>
            \<not> contains (cache t) (hd (inserted_vpns ops)) \<and>
            hits t = 0 \<and> misses t = int32 (int (length ops) - (c + 1)) \<and>
            lookup t (hd (inserted_vpns ops)) = (- 1, t\<lparr>misses := int32 (misses t + 1)\<rparr>) \<and>
            count_run t [Lookup (hd (inserted_vpns ops))] = (0, 1)"
    using r o' c n h m l cr unfolding vs_def by blast
qed

theorem lru_eviction_witness:
  "(1::int) \<le> 2 \<and>
   distinct (inserted_vpns [Lookup 1, Insert 1 10, Lookup 2, Insert 2 20, Lookup 3, Insert 3 30]) \<and>
   int (length (inserted_vpns
     [Lookup 1, Insert 1 10, Lookup 2, Insert 2 20, Lookup 3, Insert 3 30])) = 2 + 1 \<and>
   no_repeated_lookups [] [Lookup 1, Insert 1 10, Lookup 2, Insert 2 20, Lookup 3, Insert 3 30] \<and>
   (\<exists>t. tlb_run (TLB_new 2)
           [Lookup 1, Insert 1 10, Lookup 2, Insert 2 20, Lookup 3, Insert 3 30] = Inr t \<and>
        get_order (cache t) = [2, 3] \<and> \<not> contains (cache t) 1 \<and>
        lookup t 1 = (- 1, t\<lparr>misses := 4\<rparr>))"
proof -
  have h1: "(1::int) \<le> 2" by simp
  have h2: "distinct (inserted_vpns
      [Lookup 1, Insert 1 10, Lookup 2, Insert 2 20, Lookup 3, Insert 3 30])" by simp
  have h3: "int (length (inserted_vpns
     [Lookup 1, Insert 1 10, Lookup 2, Insert 2 20, Lookup 3, Insert 3 30])) = 2 + 1" by simp
  have h4: "no_repeated_lookups []
      [Lookup 1, Insert 1 10, Lookup 2, Insert 2 20, Lookup 3, Insert 3 30]" by simp
  from lru_eviction [OF h1 h2 h3 h4]
  obtain t where r: "tlb_run (TLB_new 2)
        [Lookup 1, Insert 1 10, Lookup 2, Insert 2 20, Lookup 3, Insert 3 30] = Inr t"
    and o: "get_order (cache t) = tl (inserted_vpns
        [Lookup 1, Insert 1 10, Lookup 2, Insert 2 20, Lookup 3, Insert 3 30])"
    and n: "\<not> contains (cache t) (hd (inserted_vpns
        [Lookup 1, Insert 1 10, Lookup 2, Insert 2 20, Lookup 3, Insert 3 30]))"
    and m: "misses t = int32 (int (length
        [Lookup 1, Insert 1 10, Lookup 2, Insert 2 20, Lookup 3, Insert 3 30]) - (2 + 1))"
    and l: "lookup t (hd (inserted_vpns
        [Lookup 1, Insert 1 10, Lookup 2, Insert 2 20, Lookup 3, Insert 3 30]))
        = (- 1, t\<lparr>misses := int32 (misses t + 1)\<rparr>)"
    by blast
  have o': "get_order (cache t) = [2, 3]" using o by simp
  have n': "\<not> contains (cache t) 1" using n by simp
  have m': "misses t = 3" using m by (simp add: int32_def)
  have l': "lookup t 1 = (- 1, t\<lparr>misses := 4\<rparr>)" using l by (simp add: m' int32_def)
  show ?thesis using h1 h2 h3 h4 r o' n' l' by blast
qed

text \<open>
  C4 as stated fails for \<open>c = 0\<close>: the one insert finds the cache at capacity and reads
  \<^verbatim>\<open>front()\<close> of the empty order vector, so there is no TLB in which the lookup could miss.
  It also fails when a single lookup comes between the inserts and hits: with capacity 2,
  after inserting VPNs 1 and 2 a lookup of VPN 1 moves it to the back, and the insert of VPN 3
  evicts VPN 2, not the first-inserted VPN 1.
\<close>

theorem lru_eviction_counterexample:
  "tlb_run (TLB_new 0) (map (case_prod Insert) [(7, 3)]) = Inl EmptyFront \<and>
   map_sum id (get_order \<circ> cache)
     (tlb_run (TLB_new 2) [Insert 1 10, Insert 2 20, Lookup 1, Insert 3 30]) = Inr [1, 3]"
  by (simp add: TLB_new_def insert_tlb_def lookup_def contains_def OrderedDict_new_def size_od_def
      to_size_t_def get_order_def insert_od_def erase_def move_to_end_def index_od_def Let_def)

text \<open>
  C5. For every frame bitmap and every \<open>k \<ge> 1\<close>, \<open>find_and_allocate_physical_frames\<close>
  returns an index other than \<open>-1\<close> if and only if some run of \<open>k\<close> consecutive free frames
  exists. When it does, the index starts a run of \<open>k\<close> frames that were all free before the
  call, no run of \<open>k\<close> free frames starts further left (first fit), and afterwards exactly
  those \<open>k\<close> frames have become allocated while every other frame is as before. When it
  returns \<open>-1\<close> the bitmap is unchanged.
\<close>

theorem find_and_allocate_first_fit:
  assumes "1 \<le> k" "find_and_allocate_physical_frames fr k = (r, fr')"
  shows "(r \<noteq> - 1 \<longleftrightarrow> (\<exists>p. free_run fr p (nat k))) \<and>
         (r \<noteq> - 1 \<longrightarrow> 0 \<le> r \<and> free_run fr (nat r) (nat k) \<and>
            (\<forall>p<nat r. \<not> free_run fr p (nat k)) \<and> length fr' = length fr \<and>
            (\<forall>i<length fr. fr' ! i = (fr ! i \<or> (nat r \<le> i \<and> i < nat r + nat k)))) \<and>
         (r = - 1 \<longrightarrow> fr' = fr)"
proof -
  from find_and_allocate_cases [OF assms]
  show ?thesis
  proof
    assume "r = - 1 \<and> fr' = fr \<and> (\<forall>p. \<not> free_run fr p (nat k))"
    then show ?thesis by simp
  next
    assume a: "0 \<le> r \<and> free_run fr (nat r) (nat k) \<and> (\<forall>p<nat r. \<not> free_run fr p (nat k)) \<and>
        length fr' = length fr \<and>
        (\<forall>i<length fr. fr' ! i = (fr ! i \<or> (nat r \<le> i \<and> i < nat r + nat k)))"
    then have "r \<noteq> - 1" by linarith
    moreover have "\<exists>p. free_run fr p (nat k)" using a by blast
    ultimately show ?thesis using a by blast
  qed
qed

theorem find_and_allocate_first_fit_witness:
  "(1::int) \<le> 3 \<and>
   find_and_allocate_physical_frames [True, False, False, True, False, False, False, False] 3
     = (4, [True, False, False, True, True, True, True, False]) \<and>
   free_run [True, False, False, True, False, False, False, False] 4 3 \<and>
   \<not> free_run [True, False, False, True, False, False, False, False] 1 3"
proof -
  have h1: "(1::int) \<le> 3" by simp
  have h2: "find_and_allocate_physical_frames [True, False, False, True, False, False, False, False] 3
     = (4, [True, False, False, True, True, True, True, False])"
    by (simp add: find_and_allocate_physical_frames_def scan_frames.simps mark_allocated.simps)
  from find_and_allocate_first_fit [OF h1 h2] show ?thesis using h2 by simp
qed

text \<open>
  C6. \<open>allocate\<close> fails exactly when the frame allocator cannot satisfy some VPN of the
  request, and then as OutOfMemory: it throws, leaving the state \<open>s'\<close>, if and only if there
  is an index \<open>j\<close> of the request such that the loop has run through the indices before \<open>j\<close>
  and reached \<open>s'\<close>, the VPN of index \<open>j\<close> has no entry in \<open>s'\<close>, and the frame allocator returns
  \<open>-1\<close> on the bitmap of \<open>s'\<close>. So the state left behind is the state in which the VPN was
  reached: the entries created for the earlier VPNs of the request stay, and nothing from
  index \<open>j\<close> on is processed. Moreover, when \<open>allocate\<close> fails, the VPNs of all earlier
  indices have their entries; every entry of the page table was there before the call or
  belongs to an earlier index of this request; and every entry that existed before the call
  is still there with the same frame and page size: nothing is rolled back. When \<open>allocate\<close>
  returns normally every VPN of the request has an entry.
\<close>

theorem allocate_out_of_memory:
  "(\<forall>e s'. allocate s virtual_address request_size = Inl (e, s') \<longleftrightarrow>
      e = OutOfMemory \<and>
      (\<exists>j. 0 \<le> j \<and>
         j < num_pages_needed virtual_address request_size
               (decide_page_size (policy_engine s) request_size) \<and>
         allocate_pages (charged s virtual_address request_size) virtual_address
           (decide_page_size (policy_engine s) request_size) j 0 = Inr s' \<and>
         page_table s' (int32 (cdiv virtual_address
               (decide_page_size (policy_engine s) request_size) + j)) = None \<and>
         fst (find_and_allocate_physical_frames (physical_frames s')
                (cdiv (decide_page_size (policy_engine s) request_size) SMALL_PAGE_SIZE)) = - 1)) \<and>
   (\<forall>e s'. allocate s virtual_address request_size = Inl (e, s') \<longrightarrow>
      e = OutOfMemory \<and> page_table s \<subseteq>\<^sub>m page_table s' \<and>
      (\<exists>j. 0 \<le> j \<and>
         j < num_pages_needed virtual_address request_size
               (decide_page_size (policy_engine s) request_size) \<and>
         oom_at s s' virtual_address (decide_page_size (policy_engine s) request_size) 0 j)) \<and>
   (\<forall>s'. allocate s virtual_address request_size = Inr s' \<longrightarrow>
      (\<forall>i. 0 \<le> i \<and>
         i < num_pages_needed virtual_address request_size
               (decide_page_size (policy_engine s) request_size) \<longrightarrow>
         page_table s' (int32 (cdiv virtual_address
               (decide_page_size (policy_engine s) request_size) + i)) \<noteq> None))"
proof (intro conjI allI impI)
  fix e s'
  show "allocate s virtual_address request_size = Inl (e, s') \<longleftrightarrow>
      e = OutOfMemory \<and>
      (\<exists>j. 0 \<le> j \<and>
         j < num_pages_needed virtual_address request_size
               (decide_page_size (policy_engine s) request_size) \<and>
         allocate_pages (charged s virtual_address request_size) virtual_address
           (decide_page_size (policy_engine s) request_size) j 0 = Inr s' \<and>
         page_table s' (int32 (cdiv virtual_address
               (decide_page_size (policy_engine s) request_size) + j)) = None \<and>
         fst (find_and_allocate_physical_frames (physical_frames s')
                (cdiv (decide_page_size (policy_engine s) request_size) SMALL_PAGE_SIZE)) = - 1)"
    by (rule allocate_fails_iff)
next
  fix e s' assume "allocate s virtual_address request_size = Inl (e, s')"
  from allocate_oom_state [OF this]
  show "e = OutOfMemory" and "page_table s \<subseteq>\<^sub>m page_table s'"
    and "\<exists>j. 0 \<le> j \<and>
         j < num_pages_needed virtual_address request_size
               (decide_page_size (policy_engine s) request_size) \<and>
         oom_at s s' virtual_address (decide_page_size (policy_engine s) request_size) 0 j"
    by blast+
next
  fix s' i
  assume r: "allocate s virtual_address request_size = Inr s'"
    and i: "0 \<le> i \<and>
         i < num_pages_needed virtual_address request_size
               (decide_page_size (policy_engine s) request_size)"
  from r have "allocate_pages
       (s\<lparr>internal_fragmentation :=
            int32 (internal_fragmentation s
                   + fragmentation_contribution (policy_engine s) virtual_address request_size)\<rparr>)
       virtual_address (decide_page_size (policy_engine s) request_size)
       (num_pages_needed virtual_address request_size
          (decide_page_size (policy_engine s) request_size)) 0 = Inr s'"
    by (simp add: allocate_unfold)
  then show "page_table s' (int32 (cdiv virtual_address
               (decide_page_size (policy_engine s) request_size) + i)) \<noteq> None"
    using allocate_pages_Inr i by blast
qed

theorem allocate_out_of_memory_witness:
  "\<exists>s'. allocate (MMU_new (PolicyEngine_new ''large'' (1 * 1024 * 1024))) 0 1073741825
          = Inl (OutOfMemory, s') \<and>
     page_table s' 511 = Some (261632, LARGE_PAGE_SIZE) \<and> page_table s' 512 = None \<and>
     num_pages_needed 1073741824 1 (decide_page_size (policy_engine s') 1) = 1 \<and>
     allocate_pages (charged s' 1073741824 1) 1073741824
       (decide_page_size (policy_engine s') 1) 0 0 = Inr (charged s' 1073741824 1) \<and>
     fst (find_and_allocate_physical_frames (physical_frames s')
            (cdiv (decide_page_size (policy_engine s') 1) SMALL_PAGE_SIZE)) = - 1 \<and>
     allocate s' 1073741824 1 = Inl (OutOfMemory, charged s' 1073741824 1)"
proof -
  obtain s' where a: "allocate (MMU_new large_policy) 0 1073741825 = Inl (OutOfMemory, s')"
    and fr: "physical_frames s' = replicate 262144 True"
    and dom: "\<forall>v. page_table s' v \<noteq> None \<longrightarrow> 0 \<le> v \<and> v < 512"
    and ent: "\<forall>v. 0 \<le> v \<and> v < 512 \<longrightarrow> page_table s' v = Some (512 * v, LARGE_PAGE_SIZE)"
    using allocate_large_exhaust by blast
  have e1: "page_table s' 511 = Some (261632, LARGE_PAGE_SIZE)" using ent by simp
  have e2: "page_table s' 512 = None" using dom by fastforce
  have pe: "policy_engine s' = large_policy"
    using allocate_frame(2) [of "MMU_new large_policy" 0 1073741825] a
    by (simp add: after_allocate_def MMU_new_fields)
  have ps: "decide_page_size (policy_engine s') 1 = LARGE_PAGE_SIZE"
    by (simp add: pe large_policy_size)
  have n: "num_pages_needed 1073741824 1 (decide_page_size (policy_engine s') 1) = 1"
    by (simp add: ps num_pages_beyond)
  have pre: "allocate_pages (charged s' 1073741824 1) 1073741824
       (decide_page_size (policy_engine s') 1) 0 0 = Inr (charged s' 1073741824 1)"
    by (simp add: allocate_pages_done)
  have absent: "page_table (charged s' 1073741824 1)
      (int32 (cdiv 1073741824 (decide_page_size (policy_engine s') 1) + 0)) = None"
    by (simp add: ps vpn_beyond charged_fields e2)
  have full: "find_and_allocate_physical_frames (replicate 262144 True) 512
      = (- 1, replicate 262144 True)"
    by (rule faa_full) simp
  have f: "fst (find_and_allocate_physical_frames (physical_frames s')
            (cdiv (decide_page_size (policy_engine s') 1) SMALL_PAGE_SIZE)) = - 1"
    by (simp add: ps cdiv_large_small fr full)
  then have f': "fst (find_and_allocate_physical_frames (physical_frames (charged s' 1073741824 1))
            (cdiv (decide_page_size (policy_engine s') 1) SMALL_PAGE_SIZE)) = - 1"
    by (simp add: charged_fields)
  have j: "(0::int) \<le> 0 \<and> 0 < num_pages_needed 1073741824 1 (decide_page_size (policy_engine s') 1)"
    by (simp add: n)
  have "allocate s' 1073741824 1 = Inl (OutOfMemory, charged s' 1073741824 1)"
    using allocate_out_of_memory [of s' 1073741824 1] j pre absent f' by blast
  then show ?thesis using a e1 e2 n pre f by (auto simp: large_policy_def)
qed




text \<open>
  C8. For every request size, \<open>decide_page_size\<close> returns the small-page size in mode
  "small", the large-page size in mode "large", in mode "dynamic" the large-page size when the
  request size exceeds the threshold and the small-page size otherwise, and the small-page
  size for every other mode string. It raises nothing (the result is a plain value) and it
  is a function of the engine and the request size alone.
\<close>

theorem decide_page_size_cases:
  "decide_page_size pe request_size =
     (if mode pe = ''small'' then SMALL_PAGE_SIZE
      else if mode pe = ''large'' then LARGE_PAGE_SIZE
      else if mode pe = ''dynamic'' \<and> request_size > threshold pe then LARGE_PAGE_SIZE
      else SMALL_PAGE_SIZE)"
  by (simp add: decide_page_size_def)

text \<open>
  C9, at the failing input. With the policy "large" on a fresh MMU, 1024 calls
  \<open>allocate(0, 1)\<close> return normally and leave the counter at \<open>1024 * 2097151 = 2147482624\<close>.
  \<open>allocate(0, 1073741825)\<close> then spans 513 large pages: VPN 0 has its entry, the VPNs 1 to
  511 take the 511 large pages that are left, and at VPN 512 the frame allocator fails, so the
  call throws OutOfMemory. The contribution of the request is
  \<open>513 * 2097152 - 1073741825 = 2097151\<close>, so C9 has the counter at 2149579775 after the
  throw; the \<^verbatim>\<open>int\<close> counter has wrapped and \<open>get_internal_fragmentation\<close> returns
  \<open>-2145387521\<close>.
\<close>

theorem failed_allocate_charge_overflow:
  "map_sum fst get_internal_fragmentation
     (allocation_phase (MMU_new (PolicyEngine_new ''large'' (1 * 1024 * 1024)))
        (replicate 1024 (0, 1))) = Inr 2147482624 \<and>
   map_sum (map_prod id get_internal_fragmentation) get_internal_fragmentation
     (allocate
        (after_allocate
           (allocation_phase (MMU_new (PolicyEngine_new ''large'' (1 * 1024 * 1024)))
              (replicate 1024 (0, 1))))
        0 1073741825) = Inl (OutOfMemory, - 2145387521) \<and>
   2147482624 + claimed_contribution (PolicyEngine_new ''large'' (1 * 1024 * 1024)) 0 1073741825
     = 2149579775"
proof -
  define s1 where "s1 = (MMU_new large_policy)
            \<lparr>page_table := [0 \<mapsto> (0, LARGE_PAGE_SIZE)],
             physical_frames := replicate 512 True @ replicate 261632 False,
             internal_fragmentation := 2097151\<rparr>"
  define s where "s = s1\<lparr>internal_fragmentation := 2147482624\<rparr>"
  have a: "allocate (MMU_new large_policy) 0 1 = Inr s1"
    unfolding s1_def by (rule allocate_one_first_state)
  have "allocation_phase s1 (replicate 1023 (0, 1)) =
     Inr (s1\<lparr>internal_fragmentation := int32 (internal_fragmentation s1 + int 1023 * 2097151)\<rparr>)"
    by (rule allocation_phase_repeat_state) (simp_all add: s1_def MMU_new_fields int32_def)
  also have "int32 (internal_fragmentation s1 + int 1023 * 2097151) = 2147482624"
    by (simp add: s1_def int32_def)
  finally have r: "allocation_phase s1 (replicate 1023 (0, 1)) = Inr s" by (simp add: s_def)
  have e: "replicate 1024 (0::int, 1::int) = (0, 1) # replicate 1023 (0, 1)"
  proof -
    have "(1024::nat) = Suc 1023" by simp
    then show ?thesis by (simp only: replicate_Suc)
  qed
  have phase: "allocation_phase (MMU_new large_policy) (replicate 1024 (0, 1)) = Inr s"
    unfolding e using a r by simp
  have f: "internal_fragmentation s = 2147482624" by (simp add: s_def)
  obtain s' where fail: "allocate s 0 1073741825 = Inl (OutOfMemory, s')"
    and f': "internal_fragmentation s' = int32 (internal_fragmentation s + 2097151)"
    using allocate_exhaust_after_first [of s]
    by (auto simp: s_def s1_def MMU_new_fields)
  have "internal_fragmentation s' = - 2145387521"
    unfolding f' f by (simp add: int32_def)
  then show ?thesis
    using phase f fail claimed_contribution_exhaust
    by (simp add: large_policy_def get_internal_fragmentation_def after_allocate_def)
qed

text \<open>
  C10. \<open>allocate\<close> never changes an existing page-table entry: whatever its outcome, the
  page table before the call is contained in the page table after it. In the loop, a VPN
  that is already a key is skipped: the loop goes on at the next index in the same state (no
  frame is allocated, no entry is written), whatever page size the existing entry records.
  When every VPN of the request is already a key, the call returns normally and changes the
  fragmentation counter only. Over any later sequence of \<open>allocate\<close> and \<open>translate\<close> calls an
  entry keeps its frame and its page size.
\<close>

theorem allocate_keeps_existing_entries:
  "page_table s \<subseteq>\<^sub>m page_table (after_allocate (allocate s virtual_address request_size)) \<and>
   (\<forall>page_size n i.
      i < n \<and> page_table s (int32 (cdiv virtual_address page_size + i)) \<noteq> None \<longrightarrow>
      allocate_pages s virtual_address page_size n i
        = allocate_pages s virtual_address page_size n (i + 1)) \<and>
   ((\<forall>i. 0 \<le> i \<and>
          i < num_pages_needed virtual_address request_size
                (decide_page_size (policy_engine s) request_size) \<longrightarrow>
          page_table s (int32 (cdiv virtual_address
                (decide_page_size (policy_engine s) request_size) + i)) \<noteq> None) \<longrightarrow>
      allocate s virtual_address request_size =
        Inr (s\<lparr>internal_fragmentation :=
               int32 (internal_fragmentation s
                 + fragmentation_contribution (policy_engine s) virtual_address request_size)\<rparr>)) \<and>
   (\<forall>ops vpn entry. page_table s vpn = Some entry \<longrightarrow>
      page_table (mmu_run s ops) vpn = Some entry)"
proof (intro conjI allI impI)
  show "page_table s \<subseteq>\<^sub>m page_table (after_allocate (allocate s virtual_address request_size))"
    by (rule allocate_frame(3))
next
  fix page_size n i
  assume "i < n \<and> page_table s (int32 (cdiv virtual_address page_size + i)) \<noteq> None"
  then show "allocate_pages s virtual_address page_size n i
        = allocate_pages s virtual_address page_size n (i + 1)"
    by (simp add: allocate_pages_skip)
next
  assume a: "\<forall>i. 0 \<le> i \<and>
          i < num_pages_needed virtual_address request_size
                (decide_page_size (policy_engine s) request_size) \<longrightarrow>
          page_table s (int32 (cdiv virtual_address
                (decide_page_size (policy_engine s) request_size) + i)) \<noteq> None"
  show "allocate s virtual_address request_size =
        Inr (s\<lparr>internal_fragmentation :=
               int32 (internal_fragmentation s
                 + fragmentation_contribution (policy_engine s) virtual_address request_size)\<rparr>)"
    unfolding allocate_unfold by (rule allocate_pages_all_present) (use a in simp)
next
  fix ops vpn entry
  assume "page_table s vpn = Some entry"
  then show "page_table (mmu_run s ops) vpn = Some entry"
    using map_le_Some [OF mmu_run_map_le] by blast
qed

theorem allocate_keeps_existing_entries_witness:
  "\<exists>s1. allocate (MMU_new PolicyEngine_default) 4096 4096 = Inr s1 \<and>
     page_table s1 1 = Some (0, SMALL_PAGE_SIZE) \<and>
     decide_page_size (policy_engine s1) 2097152 = LARGE_PAGE_SIZE \<and>
     \<not> isl (allocate s1 2097152 2097152) \<and>
     page_table (mmu_run s1 [Allocate 2097152 2097152, Translate 4096]) 1
       = Some (0, SMALL_PAGE_SIZE)"
proof -
  obtain s1 where a1: "allocate (MMU_new PolicyEngine_default) 4096 4096 = Inr s1"
    and pt1: "page_table s1 = [1 \<mapsto> (0, SMALL_PAGE_SIZE)]"
    and pe1: "policy_engine s1 = PolicyEngine_default"
    using allocate_small_first by blast
  have e: "page_table s1 1 = Some (0, SMALL_PAGE_SIZE)" by (simp add: pt1)
  have v: "int32 (cdiv 2097152 LARGE_PAGE_SIZE + 0) = 1"
    by (simp add: cdiv_def LARGE_PAGE_SIZE_def int32_def)
  have all: "\<forall>i. 0 \<le> i \<and>
          i < num_pages_needed 2097152 2097152 (decide_page_size (policy_engine s1) 2097152) \<longrightarrow>
          page_table s1 (int32 (cdiv 2097152
                (decide_page_size (policy_engine s1) 2097152) + i)) \<noteq> None"
  proof (intro allI impI)
    fix i :: int
    assume "0 \<le> i \<and>
          i < num_pages_needed 2097152 2097152 (decide_page_size (policy_engine s1) 2097152)"
    then have "i = 0" by (simp add: pe1 default_sizes num_pages_large_request)
    then show "page_table s1 (int32 (cdiv 2097152
                (decide_page_size (policy_engine s1) 2097152) + i)) \<noteq> None"
      using v e by (simp add: pe1 default_sizes)
  qed
  note k = allocate_keeps_existing_entries [of s1 2097152 2097152]
  have "\<not> isl (allocate s1 2097152 2097152)" using k all by simp
  moreover have "page_table (mmu_run s1 [Allocate 2097152 2097152, Translate 4096]) 1
       = Some (0, SMALL_PAGE_SIZE)"
    using k e by blast
  ultimately show ?thesis using a1 e by (auto simp: pe1 default_sizes)
qed

end
